theory Spec2Isabelle
  imports Complex_Main "HOL-Library.Word"
begin

unbundle bit_operations_syntax

section \<open>Arrays\<close>

text \<open>
  The image is a numpy array of shape \<open>(h, w, 3)\<close> with dtype uint8. It is modelled as a
  list of rows, each row a list of pixels, each pixel its three channel bytes. A mask is
  a grid of single bytes. numpy arrays are rectangular by construction; the lists of the
  model are rectangular when \<open>rectangular\<close> holds.
\<close>

type_synonym pixel = "8 word \<times> 8 word \<times> 8 word"
type_synonym 'a grid = "'a list list"
type_synonym ndarray = "pixel grid"

text \<open>
  What the tool can raise: \<open>ValueError\<close> from numpy on arrays whose shapes do not fit, and
  \<open>cv2.error\<close> from OpenCV.
\<close>

datatype error = ValueError | CvError

definition shape2 :: "'a grid \<Rightarrow> nat \<times> nat" where
  "shape2 a = (length a, (case a of [] \<Rightarrow> 0 | row # _ \<Rightarrow> length row))"

definition rectangular :: "'a grid \<Rightarrow> bool" where
  "rectangular a = list_all (\<lambda>row. length row = snd (shape2 a)) a"

text \<open>
  Python's slice \<open>xs[a:b]\<close>: a negative bound counts from the end, and both bounds are
  clipped to \<open>0 .. len(xs)\<close>.
\<close>

definition slice_index :: "nat \<Rightarrow> int \<Rightarrow> nat" where
  "slice_index n i = (if i < 0 then nat (max (i + int n) 0) else nat (min i (int n)))"

definition py_slice :: "'a list \<Rightarrow> int \<Rightarrow> int \<Rightarrow> 'a list" where
  "py_slice xs a b =
     (let i = slice_index (length xs) a; j = slice_index (length xs) b
      in take (j - i) (drop i xs))"

text \<open>\<open>a[y1:y2, x1:x2]\<close>\<close>

definition slice2 :: "'a grid \<Rightarrow> int \<Rightarrow> int \<Rightarrow> int \<Rightarrow> int \<Rightarrow> 'a grid" where
  "slice2 a y1 y2 x1 x2 = map (\<lambda>row. py_slice row x1 x2) (py_slice a y1 y2)"

text \<open>
  \<open>a[y1:y2, x1:x2] = v\<close> for a value of the shape of the slice. A value of another shape
  is reported as \<open>ValueError\<close> (numpy's broadcasting of a smaller value is not modelled;
  \<open>_apply_blur\<close> assigns a value computed from the slice itself).
\<close>

definition set_row :: "'a list \<Rightarrow> int \<Rightarrow> int \<Rightarrow> 'a list \<Rightarrow> 'a list" where
  "set_row row x1 x2 v =
     (let k = slice_index (length row) x1; l = max k (slice_index (length row) x2)
      in take k row @ v @ drop l row)"

definition set_slice2 :: "'a grid \<Rightarrow> int \<Rightarrow> int \<Rightarrow> int \<Rightarrow> int \<Rightarrow> 'a grid \<Rightarrow> error + 'a grid" where
  "set_slice2 a y1 y2 x1 x2 v =
     (if map length v \<noteq> map length (slice2 a y1 y2 x1 x2) then Inl ValueError
      else
        let i = slice_index (length a) y1; j = max i (slice_index (length a) y2)
        in Inr (take i a
                @ map2 (\<lambda>row vrow. set_row row x1 x2 vrow) (take (j - i) (drop i a)) v
                @ drop j a))"

text \<open>\<open>np.zeros(shape, dtype=np.uint8)\<close>\<close>

definition zeros :: "nat \<times> nat \<Rightarrow> 8 word grid" where
  "zeros sh = replicate (fst sh) (replicate (snd sh) 0)"

text \<open>\<open>cv2.merge([a, b, c])\<close> on three single-channel arrays of one shape.\<close>

definition merge :: "8 word grid \<Rightarrow> 8 word grid \<Rightarrow> 8 word grid \<Rightarrow> ndarray" where
  "merge a b c =
     map2 (\<lambda>ra (rb, rc). map2 (\<lambda>x (y, z). (x, y, z)) ra (zip rb rc)) a (zip b c)"

text \<open>\<open>arr == v\<close>, element by element.\<close>

definition eq_scalar :: "ndarray \<Rightarrow> 8 word \<Rightarrow> (bool \<times> bool \<times> bool) grid" where
  "eq_scalar a v = map (map (\<lambda>(c0, c1, c2). (c0 = v, c1 = v, c2 = v))) a"

text \<open>
  \<open>np.where(cond, x, y)\<close> on three arrays of one shape: element by element, \<open>x\<close> where
  the condition holds and \<open>y\<close> elsewhere. Shapes that differ are reported as
  \<open>ValueError\<close>.
\<close>

fun where_px :: "bool \<times> bool \<times> bool \<Rightarrow> pixel \<Rightarrow> pixel \<Rightarrow> pixel" where
  "where_px (c0, c1, c2) (a0, a1, a2) (b0, b1, b2) =
     (if c0 then a0 else b0, if c1 then a1 else b1, if c2 then a2 else b2)"

definition np_where :: "(bool \<times> bool \<times> bool) grid \<Rightarrow> ndarray \<Rightarrow> ndarray \<Rightarrow> error + ndarray" where
  "np_where c x y =
     (if map length x = map length c \<and> map length y = map length c
      then Inr (map2 (\<lambda>crow (xrow, yrow).
                   map2 (\<lambda>cp (xp, yp). where_px cp xp yp) crow (zip xrow yrow))
                 c (zip x y))
      else Inl ValueError)"

section \<open>The library operations the tool calls\<close>

text \<open>
  \<open>cv2.GaussianBlur\<close> and the rasteriser of \<open>cv2.circle\<close> are library code computed in
  floating point and by OpenCV's own scan conversion; they are parameters of the model.
  \<open>GaussianBlur cv src (kw, kh) sigma\<close> is the blurred array, and
  \<open>circle_covers cv center r (x, y)\<close> tells whether the filled circle of that centre and
  radius paints the pixel in column \<open>x\<close> of row \<open>y\<close>. The image encoders OpenCV is built
  with are a parameter as well: \<open>has_writer cv filename\<close> tells whether one of them answers
  to the extension of the file name. So are the separators of the platform's \<open>os.path\<close>:
  \<open>/\<close> and none on POSIX, the backslash and \<open>/\<close> on Windows.
\<close>

record platform =
  GaussianBlur :: "ndarray \<Rightarrow> int \<times> int \<Rightarrow> real \<Rightarrow> ndarray"
  circle_covers :: "int \<times> int \<Rightarrow> int \<Rightarrow> int \<times> int \<Rightarrow> bool"
  has_writer :: "string \<Rightarrow> bool"
  path_sep :: char
  path_altsep :: "char option"

text \<open>OpenCV documents the result of \<open>GaussianBlur\<close> as of the same size as its source.\<close>

definition blur_keeps_shape :: "platform \<Rightarrow> bool" where
  "blur_keeps_shape cv =
     (\<forall>src ks sigma. map length (GaussianBlur cv src ks sigma) = map length src)"

text \<open>
  \<open>cv2.circle(img, center, r, color, -1)\<close>: the filled circle, drawn in place into a
  single-channel array; the pixels it covers take the colour, the others keep their value.
\<close>

definition circle :: "platform \<Rightarrow> 8 word grid \<Rightarrow> int \<times> int \<Rightarrow> int \<Rightarrow> 8 word \<Rightarrow> 8 word grid" where
  "circle cv img center r color =
     map (\<lambda>(y, row).
            map (\<lambda>(x, v). if circle_covers cv center r (int x, int y) then color else v)
                (enumerate 0 row))
         (enumerate 0 img)"

section \<open>The tool\<close>

text \<open>
  The arrays live in a store, a list indexed by address; \<open>.copy()\<close> allocates the next
  address. The fields of \<open>BlurTool\<close> that hold arrays hold addresses, so that sharing
  between the live image and the undo history would show.
\<close>

type_synonym addr = nat

record BlurTool =
  image_path :: string
  original :: addr
  image_buf :: addr
  history :: "addr list"
  radius :: int
  blur_strength :: int
  mouse_pos :: "int \<times> int"
  heap :: "ndarray list"

text \<open>\<open>__init__\<close>; the argument \<open>loaded\<close> is the result of \<open>cv2.imread\<close>, \<open>None\<close> on failure.\<close>

definition init :: "string \<Rightarrow> ndarray option \<Rightarrow> BlurTool option" where
  "init path loaded =
     (case loaded of
        None \<Rightarrow> None
      | Some img \<Rightarrow>
          Some \<lparr>image_path = path, original = 0, image_buf = 1, history = [],
                radius = 50, blur_strength = 51, mouse_pos = (-1, -1),
                heap = [img, img]\<rparr>)"

text \<open>The array the live image refers to.\<close>

definition live :: "BlurTool \<Rightarrow> ndarray" where
  "live s = heap s ! image_buf s"

text \<open>Lines 72 to 75 of \<open>_apply_blur\<close>: the bounding box \<open>(x1, y1, x2, y2)\<close>.\<close>

definition bounding_box :: "nat \<times> nat \<Rightarrow> int \<Rightarrow> int \<Rightarrow> int \<Rightarrow> int \<times> int \<times> int \<times> int" where
  "bounding_box sh cx cy r =
     (let h = int (fst sh); w = int (snd sh);
          x1 = max (cx - r) 0;
          y1 = max (cy - r) 0;
          x2 = min (cx + r) w;
          y2 = min (cy + r) h
      in (x1, y1, x2, y2))"

text \<open>Lines 84 to 96: the composited region, from the region and the parameters.\<close>

definition roi_mask :: "platform \<Rightarrow> ndarray \<Rightarrow> int \<times> int \<Rightarrow> int \<Rightarrow> 8 word grid" where
  "roi_mask cv roi center r = circle cv (zeros (shape2 roi)) center r 255"

definition composite :: "platform \<Rightarrow> ndarray \<Rightarrow> int \<Rightarrow> int \<times> int \<Rightarrow> int \<Rightarrow> error + ndarray" where
  "composite cv roi strength center r =
     (let ksize = strength OR 1;
          sigma = real_of_int ksize / 3;
          blurred_roi = GaussianBlur cv roi (ksize, ksize) sigma;
          mask = roi_mask cv roi center r;
          mask_3ch = merge mask mask mask
      in np_where (eq_scalar mask_3ch 255) blurred_roi roi)"

definition apply_blur :: "platform \<Rightarrow> BlurTool \<Rightarrow> int \<Rightarrow> int \<Rightarrow> error + BlurTool" where
  "apply_blur cv s cx cy =
     (let img = live s;
          r = radius s;
          (x1, y1, x2, y2) = bounding_box (shape2 img) cx cy r
      in if x2 \<le> x1 \<or> y2 \<le> y1 then Inr s
         else
           let s1 = s\<lparr>history := history s @ [length (heap s)], heap := heap s @ [img]\<rparr>;
               roi = slice2 img y1 y2 x1 x2
           in case composite cv roi (blur_strength s) (cx - x1, cy - y1) r of
                Inl e \<Rightarrow> Inl e
              | Inr roi_out \<Rightarrow>
                  (case set_slice2 img y1 y2 x1 x2 roi_out of
                     Inl e \<Rightarrow> Inl e
                   | Inr img' \<Rightarrow> Inr (s1\<lparr>heap := (heap s1)[image_buf s1 := img']\<rparr>)))"

definition EVENT_MOUSEMOVE :: int where "EVENT_MOUSEMOVE = 0"
definition EVENT_LBUTTONDOWN :: int where "EVENT_LBUTTONDOWN = 1"

definition mouse_callback :: "platform \<Rightarrow> BlurTool \<Rightarrow> int \<Rightarrow> int \<Rightarrow> int \<Rightarrow> error + BlurTool" where
  "mouse_callback cv s event x y =
     (if event = EVENT_MOUSEMOVE then Inr (s\<lparr>mouse_pos := (x, y)\<rparr>)
      else if event = EVENT_LBUTTONDOWN then apply_blur cv s x y
      else Inr s)"

subsection \<open>The output path\<close>

text \<open>
  \<open>str.rfind\<close> for a single character: the last index where it occurs, or \<open>-1\<close>.
\<close>

fun rfind :: "'a list \<Rightarrow> 'a \<Rightarrow> int" where
  "rfind [] c = -1"
| "rfind (x # xs) c =
     (let i = rfind xs c in if 0 \<le> i then i + 1 else if x = c then 0 else -1)"

text \<open>
  \<open>os.path.splitext\<close> as CPython's \<open>genericpath._splitext\<close> computes it: the extension
  starts at the last dot, when that dot comes after the last separator and some
  character of the file name before it is not a dot.
\<close>

definition splitext_generic :: "string \<Rightarrow> char \<Rightarrow> char option \<Rightarrow> char \<Rightarrow> string \<times> string" where
  "splitext_generic p sep altsep extsep =
     (let sepIndex = (case altsep of None \<Rightarrow> rfind p sep
                      | Some a \<Rightarrow> max (rfind p sep) (rfind p a));
          dotIndex = rfind p extsep
      in if sepIndex < dotIndex
            \<and> list_ex (\<lambda>i. p ! i \<noteq> extsep) [nat (sepIndex + 1) ..< nat dotIndex]
         then (take (nat dotIndex) p, drop (nat dotIndex) p)
         else (p, []))"

text \<open>\<open>os.path.splitext\<close> with the separators of the platform; the dot is the same on both.\<close>

definition splitext :: "platform \<Rightarrow> string \<Rightarrow> string \<times> string" where
  "splitext cv p = splitext_generic p (path_sep cv) (path_altsep cv) (CHR ''.'')"

definition output_path :: "platform \<Rightarrow> BlurTool \<Rightarrow> string" where
  "output_path cv s =
     (let (base, ext) = splitext cv (image_path s) in base @ ''_blurred'' @ ext)"

subsection \<open>The main loop\<close>

text \<open>What one pass of the loop prints and writes, and whether the loop goes on.\<close>

datatype effect =
    ImWrite string ndarray
  | PrintSaved string
  | PrintExited
  | PrintRadius int
  | PrintBlurStrength int
  | PrintUndo
  | PrintNothingToUndo

datatype status = Active | Terminated

text \<open>
  \<open>cv2.imwrite(filename, img)\<close>: OpenCV picks the encoder by the text after the last dot
  of the file name, and raises \<open>cv2.error\<close> when the name has no dot or when no encoder
  answers to that text. Whether the file system then takes the file is outside the model:
  the effect records the call to the encoder.
\<close>

definition imwrite :: "platform \<Rightarrow> string \<Rightarrow> ndarray \<Rightarrow> error + effect" where
  "imwrite cv filename img =
     (if CHR ''.'' \<in> set filename \<and> has_writer cv filename
      then Inr (ImWrite filename img) else Inl CvError)"

definition ord :: "char \<Rightarrow> int" where
  "ord c = of_char c"

text \<open>
  The body of the \<open>while\<close> loop after \<open>cv2.waitKey\<close> has returned \<open>k\<close> (\<open>-1\<close> when no key
  was pressed).
\<close>

definition handle_key :: "platform \<Rightarrow> BlurTool \<Rightarrow> int \<Rightarrow> error + BlurTool \<times> effect list \<times> status" where
  "handle_key cv s k =
     (let key = k AND 0xFF
      in if key = ord (CHR ''q'') then
           (let out = output_path cv s
            in case imwrite cv out (live s) of
                 Inl err \<Rightarrow> Inl err
               | Inr written \<Rightarrow> Inr (s, [written, PrintSaved out], Terminated))
         else if key = 27 then Inr (s, [PrintExited], Terminated)
         else if key = ord (CHR ''+'') \<or> key = ord (CHR ''='') then
           (let s' = s\<lparr>radius := min (radius s + 10) 300\<rparr>
            in Inr (s', [PrintRadius (radius s')], Active))
         else if key = ord (CHR ''-'') then
           (let s' = s\<lparr>radius := max (radius s - 10) 10\<rparr>
            in Inr (s', [PrintRadius (radius s')], Active))
         else if key = ord (CHR '']'') then
           (let s' = s\<lparr>blur_strength := min (blur_strength s + 10) 199\<rparr>
            in Inr (s', [PrintBlurStrength (blur_strength s')], Active))
         else if key = ord (CHR ''['') then
           (let s' = s\<lparr>blur_strength := max (blur_strength s - 10) 11\<rparr>
            in Inr (s', [PrintBlurStrength (blur_strength s')], Active))
         else if key = ord (CHR ''u'') then
           (if history s \<noteq> [] then
              Inr (s\<lparr>image_buf := last (history s), history := butlast (history s)\<rparr>,
                   [PrintUndo], Active)
            else Inr (s, [PrintNothingToUndo], Active))
         else Inr (s, [], Active))"

text \<open>
  The loop, driven by what the window system delivers: mouse events, handled by the
  callback while \<open>waitKey\<close> waits, and the results of \<open>waitKey\<close>. The run ends when a key
  terminates the loop, when something is raised, or when the events are used up, the
  tool then still waiting.
  \<open>_display_frame\<close> draws on a private copy of the image and changes nothing the tool
  keeps, so it is left out.
\<close>

datatype event = Mouse int int int | WaitKey int

fun run :: "platform \<Rightarrow> BlurTool \<Rightarrow> event list \<Rightarrow> error + BlurTool \<times> effect list \<times> status" where
  "run cv s [] = Inr (s, [], Active)"
| "run cv s (Mouse e x y # es) =
     (case mouse_callback cv s e x y of
        Inl err \<Rightarrow> Inl err
      | Inr s' \<Rightarrow> run cv s' es)"
| "run cv s (WaitKey k # es) =
     (case handle_key cv s k of
        Inl err \<Rightarrow> Inl err
      | Inr (s', out, Terminated) \<Rightarrow> Inr (s', out, Terminated)
      | Inr (s', out, Active) \<Rightarrow>
          (case run cv s' es of
             Inl err \<Rightarrow> Inl err
           | Inr (s'', out', st) \<Rightarrow> Inr (s'', out @ out', st)))"

section \<open>Notions used by the properties\<close>

text \<open>The bounding box of a click at \<open>(cx, cy)\<close> in a state, and when it is degenerate.\<close>

definition box_of :: "BlurTool \<Rightarrow> int \<Rightarrow> int \<Rightarrow> int \<times> int \<times> int \<times> int" where
  "box_of s cx cy = bounding_box (shape2 (live s)) cx cy (radius s)"

definition degenerate :: "int \<times> int \<times> int \<times> int \<Rightarrow> bool" where
  "degenerate b = (case b of (x1, y1, x2, y2) \<Rightarrow> x2 \<le> x1 \<or> y2 \<le> y1)"

text \<open>The pixel in column \<open>x\<close> of row \<open>y\<close> lies in the box \<open>[x1, x2) \<times> [y1, y2)\<close>.\<close>

definition in_box :: "int \<times> int \<times> int \<times> int \<Rightarrow> nat \<Rightarrow> nat \<Rightarrow> bool" where
  "in_box b x y = (case b of (x1, y1, x2, y2) \<Rightarrow>
     x1 \<le> int x \<and> int x < x2 \<and> y1 \<le> int y \<and> int y < y2)"

text \<open>
  What the region of a click is, what its blurred copy is and what its mask is, as
  \<open>_apply_blur\<close> computes them.
\<close>

definition roi_of :: "BlurTool \<Rightarrow> int \<Rightarrow> int \<Rightarrow> ndarray" where
  "roi_of s cx cy = (case box_of s cx cy of (x1, y1, x2, y2) \<Rightarrow> slice2 (live s) y1 y2 x1 x2)"

definition blurred_of :: "platform \<Rightarrow> BlurTool \<Rightarrow> int \<Rightarrow> int \<Rightarrow> ndarray" where
  "blurred_of cv s cx cy =
     (let ksize = blur_strength s OR 1
      in GaussianBlur cv (roi_of s cx cy) (ksize, ksize) (real_of_int ksize / 3))"

definition mask_of :: "platform \<Rightarrow> BlurTool \<Rightarrow> int \<Rightarrow> int \<Rightarrow> 8 word grid" where
  "mask_of cv s cx cy = (case box_of s cx cy of (x1, y1, x2, y2) \<Rightarrow>
     roi_mask cv (roi_of s cx cy) (cx - x1, cy - y1) (radius s))"

text \<open>The contents of the undo history, oldest first.\<close>

definition snapshots :: "BlurTool \<Rightarrow> ndarray list" where
  "snapshots s = map (\<lambda>a. heap s ! a) (history s)"

text \<open>
  The invariant of the store: the live image and the history entries are allocated, the
  live image is none of the history entries, no two history entries share an array, and
  every array is rectangular.
\<close>

definition tool_inv :: "BlurTool \<Rightarrow> bool" where
  "tool_inv s =
     (image_buf s < length (heap s)
      \<and> list_all (\<lambda>a. a < length (heap s)) (history s)
      \<and> image_buf s \<notin> set (history s)
      \<and> distinct (history s)
      \<and> list_all rectangular (heap s))"

text \<open>The parameters are in their ranges and the blur strength is odd.\<close>

definition params_ok :: "BlurTool \<Rightarrow> bool" where
  "params_ok s = (10 \<le> radius s \<and> radius s \<le> 300 \<and> 11 \<le> blur_strength s
     \<and> blur_strength s \<le> 199 \<and> odd (blur_strength s))"

subsection \<open>An instance for the examples\<close>

text \<open>
  An instance of the parameters: a blur that returns a black array of the shape of its
  source, the Euclidean disc as the filled circle, encoders for the file names that end
  in \<open>.png\<close>, \<open>.jpg\<close> or \<open>.bmp\<close>, and the POSIX separators. The example tool holds an
  image of one row of twelve pixels and has the radius at its minimum.
\<close>

definition ex_cv :: platform where
  "ex_cv = \<lparr>GaussianBlur = (\<lambda>src ks sigma. map (map (\<lambda>p. (0, 0, 0))) src),
            circle_covers = (\<lambda>(cx, cy) r (x, y). (x - cx) * (x - cx) + (y - cy) * (y - cy) \<le> r * r),
            has_writer = (\<lambda>filename. drop (nat (rfind filename (CHR ''.''))) filename
                                        \<in> set [''.png'', ''.jpg'', ''.bmp'']),
            path_sep = CHR ''/'', path_altsep = None\<rparr>"

definition ex_image :: ndarray where
  "ex_image = [[(1, 1, 1), (2, 2, 2), (3, 3, 3), (4, 4, 4), (5, 5, 5), (6, 6, 6),
                (7, 7, 7), (8, 8, 8), (9, 9, 9), (10, 10, 10), (11, 11, 11), (12, 12, 12)]]"

definition ex_tool :: BlurTool where
  "ex_tool = \<lparr>image_path = ''photos/face.png'', original = 0, image_buf = 1, history = [],
              radius = 10, blur_strength = 51, mouse_pos = (-1, -1),
              heap = [ex_image, ex_image]\<rparr>"

text \<open>
  The example tool after a click at \<open>(0, -8)\<close>, which blurs the first seven pixels, and
  after a second click at \<open>(3, 0)\<close>, which blurs the whole row.
\<close>

definition ex_blurred_image :: ndarray where
  "ex_blurred_image = [[(0, 0, 0), (0, 0, 0), (0, 0, 0), (0, 0, 0), (0, 0, 0), (0, 0, 0),
                        (0, 0, 0), (8, 8, 8), (9, 9, 9), (10, 10, 10), (11, 11, 11), (12, 12, 12)]]"

definition ex_black_image :: ndarray where
  "ex_black_image = [[(0, 0, 0), (0, 0, 0), (0, 0, 0), (0, 0, 0), (0, 0, 0), (0, 0, 0),
                      (0, 0, 0), (0, 0, 0), (0, 0, 0), (0, 0, 0), (0, 0, 0), (0, 0, 0)]]"

definition ex_tool_clicked :: BlurTool where
  "ex_tool_clicked = ex_tool\<lparr>history := [2], heap := [ex_image, ex_blurred_image, ex_image]\<rparr>"

definition ex_tool_clicked_twice :: BlurTool where
  "ex_tool_clicked_twice =
     ex_tool\<lparr>history := [2, 3],
             heap := [ex_image, ex_black_image, ex_image, ex_blurred_image]\<rparr>"



definition ex_bare_tool :: BlurTool where
  "ex_bare_tool = ex_tool\<lparr>image_path := ''photos/face''\<rparr>"

section \<open>Facts about the array operations\<close>


lemma slice_index_in_range: "0 \<le> i \<Longrightarrow> i \<le> int n \<Longrightarrow> slice_index n i = nat i"
  by (simp add: slice_index_def)

lemma py_slice_in_range:
  assumes "0 \<le> a" "a \<le> b" "b \<le> int (length xs)"
  shows "py_slice xs a b = take (nat b - nat a) (drop (nat a) xs)"
  using assms by (simp add: py_slice_def Let_def slice_index_in_range)

lemma length_py_slice_in_range:
  assumes "0 \<le> a" "a \<le> b" "b \<le> int (length xs)"
  shows "length (py_slice xs a b) = nat b - nat a"
  using assms by (simp add: py_slice_in_range)

lemma nth_py_slice_in_range:
  assumes "0 \<le> a" "a \<le> b" "b \<le> int (length xs)" "i < nat b - nat a"
  shows "py_slice xs a b ! i = xs ! (nat a + i)"
  using assms by (simp add: py_slice_in_range)

lemma rectangular_row: "rectangular a \<Longrightarrow> y < length a \<Longrightarrow> length (a ! y) = snd (shape2 a)"
  by (simp add: rectangular_def list_all_length)

lemma rectangularI: "(\<And>y. y < length a \<Longrightarrow> length (a ! y) = w) \<Longrightarrow> rectangular a"
proof (cases a)
  case Nil
  then show ?thesis by (simp add: rectangular_def)
next
  case (Cons r rs)
  assume len: "\<And>y. y < length a \<Longrightarrow> length (a ! y) = w"
  from Cons len [of 0] have "snd (shape2 a) = w" by (simp add: shape2_def)
  with len show ?thesis by (simp add: rectangular_def list_all_length)
qed

lemma shape2_nonempty: "a \<noteq> [] \<Longrightarrow> snd (shape2 a) = length (a ! 0)"
  by (cases a) (simp_all add: shape2_def)


lemma slice2_in_range:
  assumes "rectangular a" "0 \<le> y1" "y1 \<le> y2" "y2 \<le> int (length a)"
    and "0 \<le> x1" "x1 \<le> x2" "x2 \<le> int (snd (shape2 a))"
  shows length_slice2: "length (slice2 a y1 y2 x1 x2) = nat y2 - nat y1"
    and length_slice2_row:
      "ly < nat y2 - nat y1 \<Longrightarrow> length (slice2 a y1 y2 x1 x2 ! ly) = nat x2 - nat x1"
    and nth_slice2:
      "ly < nat y2 - nat y1 \<Longrightarrow> lx < nat x2 - nat x1 \<Longrightarrow>
         slice2 a y1 y2 x1 x2 ! ly ! lx = a ! (nat y1 + ly) ! (nat x1 + lx)"
proof -
  show len: "length (slice2 a y1 y2 x1 x2) = nat y2 - nat y1"
    using assms by (simp add: slice2_def length_py_slice_in_range)
  have row: "slice2 a y1 y2 x1 x2 ! ly = py_slice (a ! (nat y1 + ly)) x1 x2"
    if "ly < nat y2 - nat y1" for ly
    using that assms by (simp add: slice2_def length_py_slice_in_range nth_py_slice_in_range)
  have wid: "length (a ! (nat y1 + ly)) = snd (shape2 a)" if "ly < nat y2 - nat y1" for ly
    using that assms by (intro rectangular_row) auto
  show "ly < nat y2 - nat y1 \<Longrightarrow> length (slice2 a y1 y2 x1 x2 ! ly) = nat x2 - nat x1"
    using assms by (simp add: row wid length_py_slice_in_range)
  show "ly < nat y2 - nat y1 \<Longrightarrow> lx < nat x2 - nat x1 \<Longrightarrow>
         slice2 a y1 y2 x1 x2 ! ly ! lx = a ! (nat y1 + ly) ! (nat x1 + lx)"
    using assms by (simp add: row wid nth_py_slice_in_range)
qed

lemma length_zeros: "length (zeros sh) = fst sh"
  by (simp add: zeros_def)

lemma nth_zeros: "y < fst sh \<Longrightarrow> zeros sh ! y = replicate (snd sh) 0"
  by (simp add: zeros_def)

lemma length_circle: "length (circle cv m c r col) = length m"
  by (simp add: circle_def)

lemma length_circle_row: "y < length m \<Longrightarrow> length (circle cv m c r col ! y) = length (m ! y)"
  by (simp add: circle_def nth_enumerate_eq)

lemma nth_circle:
  "y < length m \<Longrightarrow> x < length (m ! y) \<Longrightarrow>
     circle cv m c r col ! y ! x = (if circle_covers cv c r (int x, int y) then col else m ! y ! x)"
  by (simp add: circle_def nth_enumerate_eq)

lemma roi_mask_facts:
  shows length_roi_mask: "length (roi_mask cv roi c r) = length roi"
    and length_roi_mask_row:
      "y < length roi \<Longrightarrow> length (roi_mask cv roi c r ! y) = snd (shape2 roi)"
    and nth_roi_mask:
      "y < length roi \<Longrightarrow> x < snd (shape2 roi) \<Longrightarrow>
         roi_mask cv roi c r ! y ! x = (if circle_covers cv c r (int x, int y) then 255 else 0)"
  by (simp_all add: roi_mask_def length_circle length_circle_row nth_circle length_zeros
      nth_zeros shape2_def)

lemma merge_same:
  shows length_merge: "length (merge m m m) = length m"
    and length_merge_row: "y < length m \<Longrightarrow> length (merge m m m ! y) = length (m ! y)"
    and nth_merge:
      "y < length m \<Longrightarrow> x < length (m ! y) \<Longrightarrow> merge m m m ! y ! x = (m ! y ! x, m ! y ! x, m ! y ! x)"
  by (simp_all add: merge_def)

lemma eq_scalar_facts:
  shows length_eq_scalar: "length (eq_scalar a v) = length a"
    and length_eq_scalar_row: "y < length a \<Longrightarrow> length (eq_scalar a v ! y) = length (a ! y)"
    and nth_eq_scalar:
      "y < length a \<Longrightarrow> x < length (a ! y) \<Longrightarrow>
         eq_scalar a v ! y ! x = (case a ! y ! x of (c0, c1, c2) \<Rightarrow> (c0 = v, c1 = v, c2 = v))"
  by (simp_all add: eq_scalar_def)

lemma np_where_same_shape:
  assumes "map length x = map length c" "map length y = map length c"
  shows "\<exists>out. np_where c x y = Inr out \<and> map length out = map length c \<and>
           (\<forall>i < length c. \<forall>j < length (c ! i).
              out ! i ! j = where_px (c ! i ! j) (x ! i ! j) (y ! i ! j))"
proof -
  have lx: "length x = length c" and ly: "length y = length c"
    using assms by (metis length_map)+
  have rx: "length (x ! i) = length (c ! i)" and ry: "length (y ! i) = length (c ! i)"
    if "i < length c" for i
    using that assms lx ly by (metis nth_map)+
  define out where "out = map2 (\<lambda>crow (xrow, yrow).
      map2 (\<lambda>cp (xp, yp). where_px cp xp yp) crow (zip xrow yrow)) c (zip x y)"
  have eq: "np_where c x y = Inr out"
    using assms by (simp add: np_where_def out_def)
  have len: "length out = length c"
    using lx ly by (simp add: out_def)
  have row: "out ! i = map2 (\<lambda>cp (xp, yp). where_px cp xp yp) (c ! i) (zip (x ! i) (y ! i))"
    if "i < length c" for i
    using that lx ly by (simp add: out_def)
  have rlen: "length (out ! i) = length (c ! i)" if "i < length c" for i
    using that rx ry by (simp add: row)
  have px: "out ! i ! j = where_px (c ! i ! j) (x ! i ! j) (y ! i ! j)"
    if "i < length c" "j < length (c ! i)" for i j
    using that rx ry by (simp add: row)
  have "map length out = map length c"
    using len rlen by (simp add: list_eq_iff_nth_eq)
  with eq px show ?thesis by blast
qed


lemma where_px_same: "where_px (b, b, b) p q = (if b then p else q)"
  by (cases p; cases q) simp

lemma composite_select:
  assumes keeps: "blur_keeps_shape cv" and rect: "rectangular roi"
  shows "\<exists>out. composite cv roi strength c r = Inr out \<and> map length out = map length roi \<and>
           (\<forall>y < length roi. \<forall>x < length (roi ! y).
              out ! y ! x =
                (if circle_covers cv c r (int x, int y)
                 then GaussianBlur cv roi (strength OR 1, strength OR 1)
                        (real_of_int (strength OR 1) / 3) ! y ! x
                 else roi ! y ! x))"
proof -
  define blurred where
    "blurred = GaussianBlur cv roi (strength OR 1, strength OR 1) (real_of_int (strength OR 1) / 3)"
  define mask where "mask = roi_mask cv roi c r"
  define cond where "cond = eq_scalar (merge mask mask mask) 255"
  have comp: "composite cv roi strength c r = np_where cond blurred roi"
    by (simp add: composite_def Let_def blurred_def mask_def cond_def)
  have lenc: "length cond = length roi"
    by (simp add: cond_def length_eq_scalar length_merge mask_def length_roi_mask)
  have rowc: "length (cond ! y) = length (roi ! y)" if "y < length roi" for y
    using that rect
    by (simp add: cond_def length_eq_scalar_row length_merge length_merge_row mask_def
        length_roi_mask length_roi_mask_row rectangular_row)
  have shc: "map length cond = map length roi"
    using lenc rowc by (simp add: list_eq_iff_nth_eq)
  have shb: "map length blurred = map length roi"
    using keeps by (simp add: blurred_def blur_keeps_shape_def)
  have cpx: "cond ! y ! x = (let b = circle_covers cv c r (int x, int y) in (b, b, b))"
    if "y < length roi" "x < length (roi ! y)" for y x
  proof -
    have w: "length (roi ! y) = snd (shape2 roi)"
      using that rect by (simp add: rectangular_row)
    show ?thesis
      using that w
      by (simp add: cond_def nth_eq_scalar length_merge length_merge_row nth_merge mask_def
          length_roi_mask length_roi_mask_row nth_roi_mask)
  qed
  have "map length blurred = map length cond" "map length roi = map length cond"
    using shb shc by simp_all
  from np_where_same_shape [OF this]
  obtain out where out: "np_where cond blurred roi = Inr out"
    "map length out = map length cond"
    "\<forall>i < length cond. \<forall>j < length (cond ! i).
       out ! i ! j = where_px (cond ! i ! j) (blurred ! i ! j) (roi ! i ! j)"
    by blast
  have "out ! y ! x = (if circle_covers cv c r (int x, int y) then blurred ! y ! x else roi ! y ! x)"
    if "y < length roi" "x < length (roi ! y)" for y x
    using that out(3) lenc rowc by (simp add: cpx where_px_same Let_def)
  with out(1,2) comp shc show ?thesis
    unfolding blurred_def by (intro exI [of _ out]) simp
qed

lemma set_row_in_range:
  assumes "0 \<le> x1" "x1 \<le> x2" "x2 \<le> int (length row)" "length v = nat x2 - nat x1"
  shows length_set_row: "length (set_row row x1 x2 v) = length row"
    and nth_set_row:
      "x < length row \<Longrightarrow>
         set_row row x1 x2 v ! x =
           (if nat x1 \<le> x \<and> x < nat x2 then v ! (x - nat x1) else row ! x)"
proof -
  have k: "slice_index (length row) x1 = nat x1" and l: "slice_index (length row) x2 = nat x2"
    using assms by (simp_all add: slice_index_in_range)
  have kl: "nat x1 \<le> nat x2" "nat x2 \<le> length row"
    using assms by linarith+
  have eq: "set_row row x1 x2 v = take (nat x1) row @ v @ drop (nat x2) row"
    using kl by (simp add: set_row_def Let_def k l max_def)
  show "length (set_row row x1 x2 v) = length row"
    using kl assms(4) by (simp add: eq)
  show "x < length row \<Longrightarrow>
         set_row row x1 x2 v ! x =
           (if nat x1 \<le> x \<and> x < nat x2 then v ! (x - nat x1) else row ! x)"
    using kl assms(4) by (auto simp: eq nth_append min_def)
qed


lemma set_slice2_in_range:
  assumes rect: "rectangular a"
    and ys: "0 \<le> y1" "y1 \<le> y2" "y2 \<le> int (length a)"
    and xs: "0 \<le> x1" "x1 \<le> x2" "x2 \<le> int (snd (shape2 a))"
    and sh: "map length v = map length (slice2 a y1 y2 x1 x2)"
  shows "\<exists>a'. set_slice2 a y1 y2 x1 x2 v = Inr a' \<and> length a' = length a \<and>
           (\<forall>y < length a. length (a' ! y) = length (a ! y)) \<and>
           (\<forall>y < length a. \<forall>x < length (a ! y).
              a' ! y ! x =
                (if nat y1 \<le> y \<and> y < nat y2 \<and> nat x1 \<le> x \<and> x < nat x2
                 then v ! (y - nat y1) ! (x - nat x1) else a ! y ! x))"
proof -
  define i j where "i = nat y1" and "j = nat y2"
  define mid where
    "mid = map2 (\<lambda>row vrow. set_row row x1 x2 vrow) (take (j - i) (drop i a)) v"
  define a' where "a' = take i a @ mid @ drop j a"
  have ij: "i \<le> j" "j \<le> length a"
    using ys unfolding i_def j_def by linarith+
  have lenv: "length v = j - i"
    using sh length_slice2 [OF rect ys xs] unfolding i_def j_def by (metis length_map)
  have rowv: "length (v ! ly) = nat x2 - nat x1" if "ly < j - i" for ly
  proof -
    have ly: "ly < nat y2 - nat y1" using that by (simp add: i_def j_def)
    have "length (v ! ly) = length (slice2 a y1 y2 x1 x2 ! ly)"
      using sh ly length_slice2 [OF rect ys xs] by (metis length_map nth_map)
    then show ?thesis
      using length_slice2_row [OF rect ys xs ly] by simp
  qed
  have eq: "set_slice2 a y1 y2 x1 x2 v = Inr a'"
    using sh ys ij
    by (simp add: set_slice2_def Let_def slice_index_in_range max_def a'_def mid_def i_def j_def)
  have lenmid: "length mid = j - i"
    using ij lenv by (simp add: mid_def)
  have nthmid: "mid ! ly = set_row (a ! (i + ly)) x1 x2 (v ! ly)" if "ly < j - i" for ly
    using that ij lenv by (simp add: mid_def)
  have len: "length a' = length a"
    using ij lenmid by (simp add: a'_def)
  have row: "a' ! y = (if i \<le> y \<and> y < j then set_row (a ! y) x1 x2 (v ! (y - i)) else a ! y)"
    if "y < length a" for y
    using that ij lenmid nthmid [of "y - i"]
    by (auto simp: a'_def nth_append min_def)
  have wid: "length (a ! y) = snd (shape2 a)" if "y < length a" for y
    using rect that by (rule rectangular_row)
  have rowlen: "length (a' ! y) = length (a ! y)" if "y < length a" for y
  proof (cases "i \<le> y \<and> y < j")
    case True
    then have "y - i < j - i" by linarith
    from rowv [OF this] xs wid [OF that] show ?thesis
      using True that by (simp add: row length_set_row)
  next
    case False
    then show ?thesis using that by (auto simp: row)
  qed
  have px: "a' ! y ! x =
      (if i \<le> y \<and> y < j \<and> nat x1 \<le> x \<and> x < nat x2
       then v ! (y - i) ! (x - nat x1) else a ! y ! x)"
    if "y < length a" "x < length (a ! y)" for y x
  proof (cases "i \<le> y \<and> y < j")
    case True
    then have "y - i < j - i" by linarith
    from rowv [OF this] xs wid [OF that(1)] show ?thesis
      using True that by (simp add: row nth_set_row)
  next
    case False
    then show ?thesis using that by (auto simp: row)
  qed
  from eq len rowlen px show ?thesis unfolding i_def j_def by blast
qed


lemma bounding_box_bounds:
  assumes "bounding_box sh cx cy r = (x1, y1, x2, y2)"
  shows "x1 = max (cx - r) 0" "y1 = max (cy - r) 0"
    "x2 = min (cx + r) (int (snd sh))" "y2 = min (cy + r) (int (fst sh))"
    "0 \<le> x1" "0 \<le> y1" "x2 \<le> int (snd sh)" "y2 \<le> int (fst sh)"
  using assms by (auto simp: bounding_box_def Let_def)

lemma apply_blur_nondegenerate:
  assumes keeps: "blur_keeps_shape cv" and rect: "rectangular (live s)"
    and box: "bounding_box (shape2 (live s)) cx cy (radius s) = (x1, y1, x2, y2)"
    and nd: "x1 < x2" "y1 < y2"
  shows "\<exists>img'.
     apply_blur cv s cx cy =
       Inr (s\<lparr>history := history s @ [length (heap s)],
              heap := (heap s @ [live s])[image_buf s := img']\<rparr>) \<and>
     length img' = length (live s) \<and>
     (\<forall>y < length (live s). length (img' ! y) = length (live s ! y)) \<and>
     (\<forall>y < length (live s). \<forall>x < length (live s ! y).
        img' ! y ! x =
          (if nat y1 \<le> y \<and> y < nat y2 \<and> nat x1 \<le> x \<and> x < nat x2
              \<and> circle_covers cv (cx - x1, cy - y1) (radius s)
                    (int (x - nat x1), int (y - nat y1))
           then GaussianBlur cv (slice2 (live s) y1 y2 x1 x2)
                  (blur_strength s OR 1, blur_strength s OR 1)
                  (real_of_int (blur_strength s OR 1) / 3) ! (y - nat y1) ! (x - nat x1)
           else live s ! y ! x))"
proof -
  define img where "img = live s"
  define roi where "roi = slice2 img y1 y2 x1 x2"
  define blurred where "blurred = GaussianBlur cv roi
     (blur_strength s OR 1, blur_strength s OR 1) (real_of_int (blur_strength s OR 1) / 3)"
  note b = bounding_box_bounds [OF box]
  have ys: "0 \<le> y1" "y1 \<le> y2" "y2 \<le> int (length img)"
    using b nd by (simp_all add: img_def shape2_def)
  have xs: "0 \<le> x1" "x1 \<le> x2" "x2 \<le> int (snd (shape2 img))"
    using b nd by (simp_all add: img_def)
  have rect': "rectangular img" using rect by (simp add: img_def)
  have lenroi: "length roi = nat y2 - nat y1"
    unfolding roi_def by (rule length_slice2 [OF rect' ys xs])
  have rowroi: "length (roi ! ly) = nat x2 - nat x1" if "ly < nat y2 - nat y1" for ly
    unfolding roi_def using that by (rule length_slice2_row [OF rect' ys xs])
  have pxroi: "roi ! ly ! lx = img ! (nat y1 + ly) ! (nat x1 + lx)"
    if "ly < nat y2 - nat y1" "lx < nat x2 - nat x1" for ly lx
    unfolding roi_def using that by (rule nth_slice2 [OF rect' ys xs])
  have rectroi: "rectangular roi"
    using lenroi rowroi by (intro rectangularI [where w = "nat x2 - nat x1"]) simp
  from composite_select [OF keeps rectroi, of "blur_strength s" "(cx - x1, cy - y1)" "radius s"]
  obtain out where out: "composite cv roi (blur_strength s) (cx - x1, cy - y1) (radius s) = Inr out"
    "map length out = map length roi"
    "\<forall>y < length roi. \<forall>x < length (roi ! y).
       out ! y ! x = (if circle_covers cv (cx - x1, cy - y1) (radius s) (int x, int y)
                      then blurred ! y ! x else roi ! y ! x)"
    unfolding blurred_def by blast
  from set_slice2_in_range [OF rect' ys xs, of out] out(2)
  obtain img' where img': "set_slice2 img y1 y2 x1 x2 out = Inr img'"
    "length img' = length img"
    "\<forall>y < length img. length (img' ! y) = length (img ! y)"
    "\<forall>y < length img. \<forall>x < length (img ! y).
       img' ! y ! x =
         (if nat y1 \<le> y \<and> y < nat y2 \<and> nat x1 \<le> x \<and> x < nat x2
          then out ! (y - nat y1) ! (x - nat x1) else img ! y ! x)"
    unfolding roi_def by blast
  have eq: "apply_blur cv s cx cy =
       Inr (s\<lparr>history := history s @ [length (heap s)],
              heap := (heap s @ [live s])[image_buf s := img']\<rparr>)"
    using box nd out(1) img'(1)
    by (simp add: apply_blur_def Let_def img_def [symmetric] roi_def [symmetric])
  have px: "img' ! y ! x =
          (if nat y1 \<le> y \<and> y < nat y2 \<and> nat x1 \<le> x \<and> x < nat x2
              \<and> circle_covers cv (cx - x1, cy - y1) (radius s)
                    (int (x - nat x1), int (y - nat y1))
           then blurred ! (y - nat y1) ! (x - nat x1)
           else img ! y ! x)"
    if "y < length img" "x < length (img ! y)" for y x
  proof (cases "nat y1 \<le> y \<and> y < nat y2 \<and> nat x1 \<le> x \<and> x < nat x2")
    case True
    then have l: "y - nat y1 < nat y2 - nat y1" "x - nat x1 < nat x2 - nat x1"
      by linarith+
    have "out ! (y - nat y1) ! (x - nat x1) =
        (if circle_covers cv (cx - x1, cy - y1) (radius s) (int (x - nat x1), int (y - nat y1))
         then blurred ! (y - nat y1) ! (x - nat x1) else roi ! (y - nat y1) ! (x - nat x1))"
      using out(3) l lenroi rowroi by simp
    moreover have "roi ! (y - nat y1) ! (x - nat x1) = img ! y ! x"
      using pxroi [OF l] True by simp
    ultimately show ?thesis
      using img'(4) that True by simp
  next
    case False
    then show ?thesis using img'(4) that by auto
  qed
  from eq img'(2,3) px show ?thesis
    unfolding blurred_def roi_def img_def by blast
qed

section \<open>Facts about one click\<close>


lemma apply_blur_fields:
  assumes "apply_blur cv s cx cy = Inr s'"
  shows "radius s' = radius s" "blur_strength s' = blur_strength s"
    "image_path s' = image_path s" "image_buf s' = image_buf s" "original s' = original s"
    "mouse_pos s' = mouse_pos s"
  using assms
  by (auto simp: apply_blur_def Let_def split: prod.splits if_splits sum.splits)

lemma in_box_nat:
  assumes "0 \<le> x1" "0 \<le> y1"
  shows "in_box (x1, y1, x2, y2) x y \<longleftrightarrow> nat x1 \<le> x \<and> x < nat x2 \<and> nat y1 \<le> y \<and> y < nat y2"
  using assms by (auto simp: in_box_def)

lemma mask_of_nth:
  assumes rect: "rectangular (live s)"
    and box: "box_of s cx cy = (x1, y1, x2, y2)" and nd: "\<not> degenerate (box_of s cx cy)"
    and inb: "in_box (x1, y1, x2, y2) x y"
  shows "mask_of cv s cx cy ! (y - nat y1) ! (x - nat x1) =
           (if circle_covers cv (cx - x1, cy - y1) (radius s) (int x - x1, int y - y1)
            then 255 else 0)"
proof -
  note b = bounding_box_bounds [OF box [unfolded box_of_def]]
  have nd': "x1 < x2" "y1 < y2" using nd box by (simp_all add: degenerate_def)
  have ys: "0 \<le> y1" "y1 \<le> y2" "y2 \<le> int (length (live s))"
    using b nd' by (simp_all add: shape2_def)
  have xs: "0 \<le> x1" "x1 \<le> x2" "x2 \<le> int (snd (shape2 (live s)))"
    using b nd' by simp_all
  define roi where "roi = slice2 (live s) y1 y2 x1 x2"
  have l: "y - nat y1 < nat y2 - nat y1" "x - nat x1 < nat x2 - nat x1"
    using inb xs ys by (auto simp: in_box_def)
  have lenroi: "length roi = nat y2 - nat y1"
    unfolding roi_def by (rule length_slice2 [OF rect ys xs])
  have "length (roi ! 0) = nat x2 - nat x1"
    unfolding roi_def using nd' ys by (intro length_slice2_row [OF rect ys xs]) simp
  moreover have "roi \<noteq> []" using lenroi l(1) by (cases roi) auto
  ultimately have w: "snd (shape2 roi) = nat x2 - nat x1"
    by (simp add: shape2_nonempty)
  have i: "int (x - nat x1) = int x - x1" "int (y - nat y1) = int y - y1"
    using inb xs ys by (auto simp: in_box_def)
  show ?thesis
    using l lenroi w i nd' ys
    by (simp add: mask_of_def roi_of_def box roi_def [symmetric] nth_roi_mask)
qed

lemma apply_blur_blurs:
  assumes keeps: "blur_keeps_shape cv" and rect: "rectangular (live s)"
    and box: "box_of s cx cy = (x1, y1, x2, y2)" and nd: "\<not> degenerate (box_of s cx cy)"
  shows "\<exists>img'.
     apply_blur cv s cx cy =
       Inr (s\<lparr>history := history s @ [length (heap s)],
              heap := (heap s @ [live s])[image_buf s := img']\<rparr>) \<and>
     length img' = length (live s) \<and>
     (\<forall>y < length (live s). length (img' ! y) = length (live s ! y)) \<and>
     (\<forall>y < length (live s). \<forall>x < length (live s ! y).
        img' ! y ! x =
          (if in_box (x1, y1, x2, y2) x y
              \<and> mask_of cv s cx cy ! (y - nat y1) ! (x - nat x1) = 255
           then blurred_of cv s cx cy ! (y - nat y1) ! (x - nat x1)
           else live s ! y ! x))"
proof -
  note b = bounding_box_bounds [OF box [unfolded box_of_def]]
  have nd': "x1 < x2" "y1 < y2" using nd box by (simp_all add: degenerate_def)
  from apply_blur_nondegenerate [OF keeps rect box [unfolded box_of_def] nd']
  obtain img' where img': "apply_blur cv s cx cy =
       Inr (s\<lparr>history := history s @ [length (heap s)],
              heap := (heap s @ [live s])[image_buf s := img']\<rparr>)"
     "length img' = length (live s)"
     "\<forall>y < length (live s). length (img' ! y) = length (live s ! y)"
     "\<forall>y < length (live s). \<forall>x < length (live s ! y).
        img' ! y ! x =
          (if nat y1 \<le> y \<and> y < nat y2 \<and> nat x1 \<le> x \<and> x < nat x2
              \<and> circle_covers cv (cx - x1, cy - y1) (radius s)
                    (int (x - nat x1), int (y - nat y1))
           then GaussianBlur cv (slice2 (live s) y1 y2 x1 x2)
                  (blur_strength s OR 1, blur_strength s OR 1)
                  (real_of_int (blur_strength s OR 1) / 3) ! (y - nat y1) ! (x - nat x1)
           else live s ! y ! x)"
    by blast
  have bl: "GaussianBlur cv (slice2 (live s) y1 y2 x1 x2)
                  (blur_strength s OR 1, blur_strength s OR 1)
                  (real_of_int (blur_strength s OR 1) / 3) = blurred_of cv s cx cy"
    by (simp add: blurred_of_def roi_of_def box Let_def)
  have px: "img' ! y ! x =
          (if in_box (x1, y1, x2, y2) x y
              \<and> mask_of cv s cx cy ! (y - nat y1) ! (x - nat x1) = 255
           then blurred_of cv s cx cy ! (y - nat y1) ! (x - nat x1)
           else live s ! y ! x)"
    if "y < length (live s)" "x < length (live s ! y)" for y x
  proof (cases "in_box (x1, y1, x2, y2) x y")
    case True
    then have n: "nat y1 \<le> y \<and> y < nat y2 \<and> nat x1 \<le> x \<and> x < nat x2"
      using b(5,6) by (simp add: in_box_nat)
    have i: "int (x - nat x1) = int x - x1" "int (y - nat y1) = int y - y1"
      using True b(5,6) by (auto simp: in_box_def)
    show ?thesis
      using img'(4) that True n
      by (simp add: mask_of_nth [OF rect box nd True] bl i)
  next
    case False
    then have neg: "\<not> (nat y1 \<le> y \<and> y < nat y2 \<and> nat x1 \<le> x \<and> x < nat x2)"
      using b(5,6) by (auto simp: in_box_nat)
    from img'(4) that have e: "img' ! y ! x =
          (if nat y1 \<le> y \<and> y < nat y2 \<and> nat x1 \<le> x \<and> x < nat x2
              \<and> circle_covers cv (cx - x1, cy - y1) (radius s)
                    (int (x - nat x1), int (y - nat y1))
           then GaussianBlur cv (slice2 (live s) y1 y2 x1 x2)
                  (blur_strength s OR 1, blur_strength s OR 1)
                  (real_of_int (blur_strength s OR 1) / 3) ! (y - nat y1) ! (x - nat x1)
           else live s ! y ! x)"
      by blast
    show ?thesis
      using neg False by (auto simp: e)
  qed
  from img'(1,2,3) px show ?thesis by blast
qed

lemma apply_blur_noop:
  assumes "degenerate (box_of s cx cy)"
  shows "apply_blur cv s cx cy = Inr s"
  using assms
  by (cases "box_of s cx cy")
    (simp add: degenerate_def box_of_def apply_blur_def Let_def)

section \<open>The example instance\<close>


lemma ex_keeps: "blur_keeps_shape ex_cv"
  by (simp add: blur_keeps_shape_def ex_cv_def)

lemma ex_inv: "tool_inv ex_tool"
  by (simp add: tool_inv_def ex_tool_def ex_image_def rectangular_def shape2_def)

lemma ex_box: "box_of ex_tool 0 (-8) = (0, 0, 10, 1)"
  by (simp add: box_of_def bounding_box_def live_def ex_tool_def ex_image_def shape2_def)


lemma ex_apply: "apply_blur ex_cv ex_tool 0 (-8) = Inr ex_tool_clicked"
  by (simp add: apply_blur_def bounding_box_def live_def ex_tool_def ex_image_def shape2_def
      composite_def roi_mask_def slice2_def py_slice_def slice_index_def circle_def zeros_def
      merge_def eq_scalar_def np_where_def set_slice2_def set_row_def ex_cv_def Let_def
      enumerate_eq_zip upt_rec ex_tool_clicked_def ex_blurred_image_def)

lemma ex_apply_again: "apply_blur ex_cv ex_tool_clicked 3 0 = Inr ex_tool_clicked_twice"
  by (simp add: apply_blur_def bounding_box_def live_def ex_tool_def ex_image_def shape2_def
      composite_def roi_mask_def slice2_def py_slice_def slice_index_def circle_def zeros_def
      merge_def eq_scalar_def np_where_def set_slice2_def set_row_def ex_cv_def Let_def
      enumerate_eq_zip upt_rec ex_tool_clicked_def ex_blurred_image_def
      ex_tool_clicked_twice_def ex_black_image_def)


lemma ord_vals: "ord (CHR ''q'') = 113" "ord (CHR ''+'') = 43" "ord (CHR ''='') = 61"
  "ord (CHR ''-'') = 45" "ord (CHR '']'') = 93" "ord (CHR ''['') = 91" "ord (CHR ''u'') = 117"
  by (simp_all add: ord_def)

section \<open>A degenerate click, and undo with nothing to undo\<close>

text \<open>
  C2. When the clamped bounding box of a click is degenerate (\<open>x2 \<le> x1\<close> or
  \<open>y2 \<le> y1\<close>), \<open>_apply_blur\<close> returns the state as it was: the live buffer, the
  store and the history are unchanged, and nothing is pushed. The same holds for the
  left-button event that calls it.
\<close>

theorem degenerate_click_is_noop:
  "degenerate (box_of s cx cy) \<Longrightarrow>
     apply_blur cv s cx cy = Inr s
     \<and> mouse_callback cv s EVENT_LBUTTONDOWN cx cy = Inr s"
  by (simp add: apply_blur_noop mouse_callback_def EVENT_LBUTTONDOWN_def EVENT_MOUSEMOVE_def)

text \<open>A click far outside the image, at \<open>(-1000, -1000)\<close>.\<close>

lemma ex_far_box: "box_of ex_tool (-1000) (-1000) = (0, 0, -990, -990)"
  by (simp add: box_of_def bounding_box_def live_def ex_tool_def ex_image_def shape2_def)

theorem degenerate_click_is_noop_witness:
  "degenerate (box_of ex_tool (-1000) (-1000))
   \<and> apply_blur ex_cv ex_tool (-1000) (-1000) = Inr ex_tool
   \<and> mouse_callback ex_cv ex_tool EVENT_LBUTTONDOWN (-1000) (-1000) = Inr ex_tool"
proof -
  have d: "degenerate (box_of ex_tool (-1000) (-1000))"
    by (simp add: ex_far_box degenerate_def)
  from d degenerate_click_is_noop [OF d, of ex_cv] show ?thesis by simp
qed

text \<open>
  C8. Undo with an empty history leaves the state unchanged, prints the notice
  "Nothing to undo." and leaves the loop active: the run goes on with the events that
  follow.
\<close>

theorem undo_on_empty_history:
  "history s = [] \<Longrightarrow> k AND 0xFF = ord (CHR ''u'') \<Longrightarrow>
     handle_key cv s k = Inr (s, [PrintNothingToUndo], Active)
     \<and> run cv s (WaitKey k # es) =
         (case run cv s es of
            Inl err \<Rightarrow> Inl err
          | Inr (s', out, st) \<Rightarrow> Inr (s', PrintNothingToUndo # out, st))"
  by (simp add: handle_key_def Let_def ord_vals split: sum.splits)

theorem undo_on_empty_history_witness:
  "history ex_tool = [] \<and> (117 :: int) AND 0xFF = ord (CHR ''u'')
   \<and> handle_key ex_cv ex_tool 117 = Inr (ex_tool, [PrintNothingToUndo], Active)
   \<and> run ex_cv ex_tool [WaitKey 117, WaitKey 45]
        = Inr (ex_tool, [PrintNothingToUndo, PrintRadius 10], Active)"
proof -
  have h: "history ex_tool = []" by (simp add: ex_tool_def)
  have k: "(117 :: int) AND 0xFF = ord (CHR ''u'')" by (simp add: ord_vals)
  have r: "run ex_cv ex_tool [WaitKey 45] = Inr (ex_tool, [PrintRadius 10], Active)"
    by (simp add: handle_key_def Let_def ord_vals ex_tool_def)
  from undo_on_empty_history [OF h k, of ex_cv "[WaitKey 45]"] h k r show ?thesis by simp
qed


section \<open>Facts about the keys and the loop\<close>

lemma handle_key_params:
  assumes "handle_key cv s k = Inr (s', out, st)"
  shows "radius s' = radius s \<or> radius s' = min (radius s + 10) 300
           \<or> radius s' = max (radius s - 10) 10"
    and "blur_strength s' = blur_strength s
           \<or> blur_strength s' = min (blur_strength s + 10) 199
           \<or> blur_strength s' = max (blur_strength s - 10) 11"
  using assms
  by (auto simp: handle_key_def Let_def split: if_splits sum.splits)

lemma params_ok_handle_key:
  assumes "params_ok s" and "handle_key cv s k = Inr (s', out, st)"
  shows "params_ok s'"
proof -
  have "odd (blur_strength s')"
    using assms(1) handle_key_params(2) [OF assms(2)]
    by (auto simp: params_ok_def min_def max_def split: if_splits)
  then show ?thesis
    using assms(1) handle_key_params [OF assms(2)]
    by (auto simp: params_ok_def)
qed

lemma params_ok_mouse_callback:
  assumes "params_ok s" "mouse_callback cv s e x y = Inr s'"
  shows "params_ok s'"
  using assms
  by (auto simp: mouse_callback_def params_ok_def apply_blur_fields split: if_splits)

lemma params_ok_run:
  "params_ok s \<Longrightarrow> run cv s es = Inr (s', out, st) \<Longrightarrow> params_ok s'"
proof (induction es arbitrary: s out)
  case Nil
  then show ?case by simp
next
  case (Cons e es)
  show ?case
  proof (cases e)
    case (Mouse ev x y)
    with Cons.prems obtain s1 where s1: "mouse_callback cv s ev x y = Inr s1"
      and r: "run cv s1 es = Inr (s', out, st)"
      by (auto split: sum.splits)
    from params_ok_mouse_callback [OF Cons.prems(1) s1] r show ?thesis
      by (rule Cons.IH)
  next
    case (WaitKey k)
    from Cons.prems(2) WaitKey obtain s1 o1 st1
      where hk: "handle_key cv s k = Inr (s1, o1, st1)"
      by (cases "handle_key cv s k") auto
    have ok1: "params_ok s1"
      using Cons.prems(1) hk by (rule params_ok_handle_key)
    show ?thesis
    proof (cases st1)
      case Active
      with Cons.prems(2) WaitKey hk obtain o2 where "run cv s1 es = Inr (s', o2, st)"
        by (auto split: sum.splits)
      with ok1 show ?thesis by (rule Cons.IH)
    next
      case Terminated
      with Cons.prems(2) WaitKey hk have "s' = s1" by simp
      with ok1 show ?thesis by simp
    qed
  qed
qed

lemma params_ok_init: "init path (Some img) = Some s0 \<Longrightarrow> params_ok s0"
  by (auto simp: init_def params_ok_def)


lemma run_repeat_increase_radius:
  "radius s \<le> 300 \<Longrightarrow>
   \<exists>s' out. run cv s (replicate n (WaitKey (ord (CHR ''+'')))) = Inr (s', out, Active)
     \<and> radius s' = min (radius s + 10 * int n) 300"
proof (induction n arbitrary: s)
  case 0
  then show ?case by simp
next
  case (Suc n)
  define s1 where "s1 = s\<lparr>radius := min (radius s + 10) 300\<rparr>"
  have hk: "handle_key cv s (ord (CHR ''+'')) = Inr (s1, [PrintRadius (radius s1)], Active)"
    by (simp add: handle_key_def Let_def ord_vals s1_def)
  have "radius s1 \<le> 300" by (simp add: s1_def)
  from Suc.IH [OF this] obtain s' out
    where r: "run cv s1 (replicate n (WaitKey (ord (CHR ''+'')))) = Inr (s', out, Active)"
      and v: "radius s' = min (radius s1 + 10 * int n) 300"
    by blast
  have "radius s' = min (radius s + 10 * int (Suc n)) 300"
    using v by (simp add: s1_def min_def)
  with hk r show ?case by simp
qed

lemma run_repeat_decrease_radius:
  "10 \<le> radius s \<Longrightarrow>
   \<exists>s' out. run cv s (replicate n (WaitKey (ord (CHR ''-'')))) = Inr (s', out, Active)
     \<and> radius s' = max (radius s - 10 * int n) 10"
proof (induction n arbitrary: s)
  case 0
  then show ?case by simp
next
  case (Suc n)
  define s1 where "s1 = s\<lparr>radius := max (radius s - 10) 10\<rparr>"
  have hk: "handle_key cv s (ord (CHR ''-'')) = Inr (s1, [PrintRadius (radius s1)], Active)"
    by (simp add: handle_key_def Let_def ord_vals s1_def)
  have "10 \<le> radius s1" by (simp add: s1_def)
  from Suc.IH [OF this] obtain s' out
    where r: "run cv s1 (replicate n (WaitKey (ord (CHR ''-'')))) = Inr (s', out, Active)"
      and v: "radius s' = max (radius s1 - 10 * int n) 10"
    by blast
  have "radius s' = max (radius s - 10 * int (Suc n)) 10"
    using v by (simp add: s1_def max_def)
  with hk r show ?case by simp
qed

lemma run_repeat_increase_blur:
  "blur_strength s \<le> 199 \<Longrightarrow>
   \<exists>s' out. run cv s (replicate n (WaitKey (ord (CHR '']'')))) = Inr (s', out, Active)
     \<and> blur_strength s' = min (blur_strength s + 10 * int n) 199"
proof (induction n arbitrary: s)
  case 0
  then show ?case by simp
next
  case (Suc n)
  define s1 where "s1 = s\<lparr>blur_strength := min (blur_strength s + 10) 199\<rparr>"
  have hk: "handle_key cv s (ord (CHR '']'')) =
      Inr (s1, [PrintBlurStrength (blur_strength s1)], Active)"
    by (simp add: handle_key_def Let_def ord_vals s1_def)
  have "blur_strength s1 \<le> 199" by (simp add: s1_def)
  from Suc.IH [OF this] obtain s' out
    where r: "run cv s1 (replicate n (WaitKey (ord (CHR '']'')))) = Inr (s', out, Active)"
      and v: "blur_strength s' = min (blur_strength s1 + 10 * int n) 199"
    by blast
  have "blur_strength s' = min (blur_strength s + 10 * int (Suc n)) 199"
    using v by (simp add: s1_def min_def)
  with hk r show ?case by simp
qed

lemma run_repeat_decrease_blur:
  "11 \<le> blur_strength s \<Longrightarrow>
   \<exists>s' out. run cv s (replicate n (WaitKey (ord (CHR ''['')))) = Inr (s', out, Active)
     \<and> blur_strength s' = max (blur_strength s - 10 * int n) 11"
proof (induction n arbitrary: s)
  case 0
  then show ?case by simp
next
  case (Suc n)
  define s1 where "s1 = s\<lparr>blur_strength := max (blur_strength s - 10) 11\<rparr>"
  have hk: "handle_key cv s (ord (CHR ''['')) =
      Inr (s1, [PrintBlurStrength (blur_strength s1)], Active)"
    by (simp add: handle_key_def Let_def ord_vals s1_def)
  have "11 \<le> blur_strength s1" by (simp add: s1_def)
  from Suc.IH [OF this] obtain s' out
    where r: "run cv s1 (replicate n (WaitKey (ord (CHR ''['')))) = Inr (s', out, Active)"
      and v: "blur_strength s' = max (blur_strength s1 - 10 * int n) 11"
    by blast
  have "blur_strength s' = max (blur_strength s - 10 * int (Suc n)) 11"
    using v by (simp add: s1_def max_def)
  with hk r show ?case by simp
qed

lemma handle_key_steps:
  "handle_key cv s (ord (CHR ''+'')) =
     Inr (s\<lparr>radius := min (radius s + 10) 300\<rparr>, [PrintRadius (min (radius s + 10) 300)], Active)"
  "handle_key cv s (ord (CHR ''='')) =
     Inr (s\<lparr>radius := min (radius s + 10) 300\<rparr>, [PrintRadius (min (radius s + 10) 300)], Active)"
  "handle_key cv s (ord (CHR ''-'')) =
     Inr (s\<lparr>radius := max (radius s - 10) 10\<rparr>, [PrintRadius (max (radius s - 10) 10)], Active)"
  "handle_key cv s (ord (CHR '']'')) =
     Inr (s\<lparr>blur_strength := min (blur_strength s + 10) 199\<rparr>,
          [PrintBlurStrength (min (blur_strength s + 10) 199)], Active)"
  "handle_key cv s (ord (CHR ''['')) =
     Inr (s\<lparr>blur_strength := max (blur_strength s - 10) 11\<rparr>,
          [PrintBlurStrength (max (blur_strength s - 10) 11)], Active)"
  by (simp_all add: handle_key_def Let_def ord_vals)

text \<open>
  C7. The radius starts at 50 and the blur strength at 51. In every state the loop
  reaches, the radius lies in \<open>[10, 300]\<close> and the blur strength in \<open>[11, 199]\<close>; each of
  the four keys moves its value by 10 and clamps it (\<open>min\<close> with the upper bound on
  increase, \<open>max\<close> with the lower bound on decrease); and \<open>n\<close> presses in a row give the
  value moved by \<open>10 * n\<close> and clamped, so that repeated increase holds at 300 and 199 and
  repeated decrease holds at 10 and 11.
\<close>

theorem parameters_stay_in_range:
  assumes "init path (Some img) = Some s0" and "run cv s0 es = Inr (s, out, st)"
  shows "radius s0 = 50 \<and> blur_strength s0 = 51
    \<and> 10 \<le> radius s \<and> radius s \<le> 300 \<and> 11 \<le> blur_strength s \<and> blur_strength s \<le> 199
    \<and> handle_key cv s (ord (CHR ''+'')) =
        Inr (s\<lparr>radius := min (radius s + 10) 300\<rparr>,
             [PrintRadius (min (radius s + 10) 300)], Active)
    \<and> handle_key cv s (ord (CHR ''='')) =
        Inr (s\<lparr>radius := min (radius s + 10) 300\<rparr>,
             [PrintRadius (min (radius s + 10) 300)], Active)
    \<and> handle_key cv s (ord (CHR ''-'')) =
        Inr (s\<lparr>radius := max (radius s - 10) 10\<rparr>,
             [PrintRadius (max (radius s - 10) 10)], Active)
    \<and> handle_key cv s (ord (CHR '']'')) =
        Inr (s\<lparr>blur_strength := min (blur_strength s + 10) 199\<rparr>,
             [PrintBlurStrength (min (blur_strength s + 10) 199)], Active)
    \<and> handle_key cv s (ord (CHR ''['')) =
        Inr (s\<lparr>blur_strength := max (blur_strength s - 10) 11\<rparr>,
             [PrintBlurStrength (max (blur_strength s - 10) 11)], Active)
    \<and> (\<forall>n. \<exists>s' out'.
          run cv s (replicate n (WaitKey (ord (CHR ''+'')))) = Inr (s', out', Active)
          \<and> radius s' = min (radius s + 10 * int n) 300 \<and> (29 \<le> n \<longrightarrow> radius s' = 300))
    \<and> (\<forall>n. \<exists>s' out'.
          run cv s (replicate n (WaitKey (ord (CHR ''-'')))) = Inr (s', out', Active)
          \<and> radius s' = max (radius s - 10 * int n) 10 \<and> (29 \<le> n \<longrightarrow> radius s' = 10))
    \<and> (\<forall>n. \<exists>s' out'.
          run cv s (replicate n (WaitKey (ord (CHR '']'')))) = Inr (s', out', Active)
          \<and> blur_strength s' = min (blur_strength s + 10 * int n) 199
          \<and> (19 \<le> n \<longrightarrow> blur_strength s' = 199))
    \<and> (\<forall>n. \<exists>s' out'.
          run cv s (replicate n (WaitKey (ord (CHR ''['')))) = Inr (s', out', Active)
          \<and> blur_strength s' = max (blur_strength s - 10 * int n) 11
          \<and> (19 \<le> n \<longrightarrow> blur_strength s' = 11))"
proof -
  have i: "radius s0 = 50" "blur_strength s0 = 51"
    using assms(1) by (auto simp: init_def)
  have ok: "params_ok s"
    using params_ok_init [OF assms(1)] assms(2) by (rule params_ok_run)
  then have b: "10 \<le> radius s" "radius s \<le> 300" "11 \<le> blur_strength s" "blur_strength s \<le> 199"
    by (simp_all add: params_ok_def)
  have r1: "\<exists>s' out'.
          run cv s (replicate n (WaitKey (ord (CHR ''+'')))) = Inr (s', out', Active)
          \<and> radius s' = min (radius s + 10 * int n) 300 \<and> (29 \<le> n \<longrightarrow> radius s' = 300)" for n
    using run_repeat_increase_radius [OF b(2), of cv n] b(1) by (auto simp: min_def)
  have r2: "\<exists>s' out'.
          run cv s (replicate n (WaitKey (ord (CHR ''-'')))) = Inr (s', out', Active)
          \<and> radius s' = max (radius s - 10 * int n) 10 \<and> (29 \<le> n \<longrightarrow> radius s' = 10)" for n
    using run_repeat_decrease_radius [OF b(1), of cv n] b(2) by (auto simp: max_def)
  have r3: "\<exists>s' out'.
          run cv s (replicate n (WaitKey (ord (CHR '']'')))) = Inr (s', out', Active)
          \<and> blur_strength s' = min (blur_strength s + 10 * int n) 199
          \<and> (19 \<le> n \<longrightarrow> blur_strength s' = 199)" for n
    using run_repeat_increase_blur [OF b(4), of cv n] b(3) by (auto simp: min_def)
  have r4: "\<exists>s' out'.
          run cv s (replicate n (WaitKey (ord (CHR ''['')))) = Inr (s', out', Active)
          \<and> blur_strength s' = max (blur_strength s - 10 * int n) 11
          \<and> (19 \<le> n \<longrightarrow> blur_strength s' = 11)" for n
    using run_repeat_decrease_blur [OF b(3), of cv n] b(4) by (auto simp: max_def)
  from i b r1 r2 r3 r4 show ?thesis
    by (simp only: handle_key_steps simp_thms)
qed


lemma ex_init: "init ''photos/face.png'' (Some ex_image) = Some (ex_tool\<lparr>radius := 50\<rparr>)"
  by (simp add: init_def ex_tool_def)

lemma ex_keys:
  "run ex_cv (ex_tool\<lparr>radius := 50\<rparr>) [WaitKey 43, WaitKey 91] =
     Inr (ex_tool\<lparr>radius := 60, blur_strength := 41\<rparr>,
          [PrintRadius 60, PrintBlurStrength 41], Active)"
  by (simp add: handle_key_def Let_def ord_vals ex_tool_def)

theorem parameters_stay_in_range_witness:
  "init ''photos/face.png'' (Some ex_image) = Some (ex_tool\<lparr>radius := 50\<rparr>)
   \<and> run ex_cv (ex_tool\<lparr>radius := 50\<rparr>) [WaitKey 43, WaitKey 91] =
       Inr (ex_tool\<lparr>radius := 60, blur_strength := 41\<rparr>,
            [PrintRadius 60, PrintBlurStrength 41], Active)
   \<and> radius (ex_tool\<lparr>radius := 50\<rparr>) = 50 \<and> blur_strength (ex_tool\<lparr>radius := 50\<rparr>) = 51
   \<and> 10 \<le> radius (ex_tool\<lparr>radius := 60, blur_strength := 41\<rparr>)
   \<and> radius (ex_tool\<lparr>radius := 60, blur_strength := 41\<rparr>) \<le> 300
   \<and> 11 \<le> blur_strength (ex_tool\<lparr>radius := 60, blur_strength := 41\<rparr>)
   \<and> blur_strength (ex_tool\<lparr>radius := 60, blur_strength := 41\<rparr>) \<le> 199
   \<and> handle_key ex_cv (ex_tool\<lparr>radius := 60, blur_strength := 41\<rparr>) (ord (CHR ''+'')) =
       Inr (ex_tool\<lparr>radius := 60, blur_strength := 41,
                    radius := min (radius (ex_tool\<lparr>radius := 60, blur_strength := 41\<rparr>) + 10) 300\<rparr>,
            [PrintRadius (min (radius (ex_tool\<lparr>radius := 60, blur_strength := 41\<rparr>) + 10) 300)],
            Active)"
  using parameters_stay_in_range [OF ex_init ex_keys] ex_init ex_keys
  by (simp only: simp_thms)

text \<open>
  C10. In every state the loop reaches, the stored blur strength is odd, so the coercion
  \<open>blur_strength | 1\<close> at the use in \<open>_apply_blur\<close> leaves it as it is: the kernel size
  passed to the blur is the stored value.
\<close>

theorem blur_strength_always_odd:
  assumes "init path (Some img) = Some s0" and "run cv s0 es = Inr (s, out, st)"
  shows "odd (blur_strength s) \<and> blur_strength s OR 1 = blur_strength s
    \<and> blurred_of cv s cx cy =
        GaussianBlur cv (roi_of s cx cy) (blur_strength s, blur_strength s)
          (real_of_int (blur_strength s) / 3)"
proof -
  have "params_ok s"
    using params_ok_init [OF assms(1)] assms(2) by (rule params_ok_run)
  then have o: "odd (blur_strength s)" by (simp add: params_ok_def)
  then have "blur_strength s OR 1 = blur_strength s" by (simp add: or_one_eq)
  with o show ?thesis by (simp add: blurred_of_def Let_def)
qed

theorem blur_strength_always_odd_witness:
  "init ''photos/face.png'' (Some ex_image) = Some (ex_tool\<lparr>radius := 50\<rparr>)
   \<and> run ex_cv (ex_tool\<lparr>radius := 50\<rparr>) [WaitKey 43, WaitKey 91] =
       Inr (ex_tool\<lparr>radius := 60, blur_strength := 41\<rparr>,
            [PrintRadius 60, PrintBlurStrength 41], Active)
   \<and> odd (blur_strength (ex_tool\<lparr>radius := 60, blur_strength := 41\<rparr>))
   \<and> blur_strength (ex_tool\<lparr>radius := 60, blur_strength := 41\<rparr>) OR 1
       = blur_strength (ex_tool\<lparr>radius := 60, blur_strength := 41\<rparr>)"
  using blur_strength_always_odd [OF ex_init ex_keys] ex_init ex_keys
  by (simp only: simp_thms)


section \<open>Facts about the store\<close>

lemma tool_inv_live_rectangular: "tool_inv s \<Longrightarrow> rectangular (live s)"
  by (simp add: tool_inv_def live_def list_all_length)

lemma tool_inv_history_lt: "tool_inv s \<Longrightarrow> a \<in> set (history s) \<Longrightarrow> a < length (heap s)"
  by (simp add: tool_inv_def list_all_iff)

lemma tool_inv_history_neq: "tool_inv s \<Longrightarrow> a \<in> set (history s) \<Longrightarrow> a \<noteq> image_buf s"
  by (auto simp: tool_inv_def)

lemma apply_blur_state:
  assumes keeps: "blur_keeps_shape cv" and inv: "tool_inv s"
    and box: "box_of s cx cy = (x1, y1, x2, y2)" and nd: "\<not> degenerate (box_of s cx cy)"
  shows "\<exists>s'. apply_blur cv s cx cy = Inr s'
     \<and> tool_inv s'
     \<and> image_buf s' = image_buf s
     \<and> history s' = history s @ [length (heap s)]
     \<and> length (heap s') = Suc (length (heap s))
     \<and> heap s' ! length (heap s) = live s
     \<and> (\<forall>a < length (heap s). a \<noteq> image_buf s \<longrightarrow> heap s' ! a = heap s ! a)
     \<and> length (live s') = length (live s)
     \<and> (\<forall>y < length (live s). length (live s' ! y) = length (live s ! y))
     \<and> (\<forall>y < length (live s). \<forall>x < length (live s ! y).
          live s' ! y ! x =
            (if in_box (x1, y1, x2, y2) x y
                \<and> mask_of cv s cx cy ! (y - nat y1) ! (x - nat x1) = 255
             then blurred_of cv s cx cy ! (y - nat y1) ! (x - nat x1)
             else live s ! y ! x))"
proof -
  define n i where "n = length (heap s)" and "i = image_buf s"
  have rect: "rectangular (live s)" using inv by (rule tool_inv_live_rectangular)
  from apply_blur_blurs [OF keeps rect box nd]
  obtain img' where img': "apply_blur cv s cx cy =
       Inr (s\<lparr>history := history s @ [n], heap := (heap s @ [live s])[i := img']\<rparr>)"
     "length img' = length (live s)"
     "\<forall>y < length (live s). length (img' ! y) = length (live s ! y)"
     "\<forall>y < length (live s). \<forall>x < length (live s ! y).
        img' ! y ! x =
          (if in_box (x1, y1, x2, y2) x y
              \<and> mask_of cv s cx cy ! (y - nat y1) ! (x - nat x1) = 255
           then blurred_of cv s cx cy ! (y - nat y1) ! (x - nat x1)
           else live s ! y ! x)"
    unfolding n_def i_def by blast
  define s' where "s' = s\<lparr>history := history s @ [n], heap := (heap s @ [live s])[i := img']\<rparr>"
  have i: "i < n" using inv by (simp add: tool_inv_def n_def i_def)
  have hist: "\<forall>a \<in> set (history s). a < n \<and> a \<noteq> i"
    using inv by (auto simp: tool_inv_def n_def i_def list_all_iff)
  have at_i: "heap s' ! i = img'"
    using i by (simp add: s'_def n_def)
  have live': "live s' = img'"
    using at_i by (simp add: s'_def live_def i_def)
  have new: "heap s' ! n = live s"
    using i by (simp add: s'_def n_def nth_append)
  have old: "heap s' ! a = heap s ! a" if "a < n" "a \<noteq> i" for a
    using that by (simp add: s'_def n_def nth_append)
  have rect': "rectangular img'"
  proof (rule rectangularI)
    fix y assume "y < length img'"
    then have y: "y < length (live s)" using img'(2) by simp
    with img'(3) rectangular_row [OF rect y]
    show "length (img' ! y) = snd (shape2 (live s))" by simp
  qed
  have rects: "list_all rectangular (heap s')"
    unfolding list_all_length
  proof (intro allI impI)
    fix a assume a: "a < length (heap s')"
    then have a': "a < Suc n" by (simp add: s'_def n_def)
    consider "a = i" | "a = n" | "a < n" "a \<noteq> i" using a' by linarith
    then show "rectangular (heap s' ! a)"
    proof cases
      case 1
      then show ?thesis using at_i rect' by simp
    next
      case 2
      then show ?thesis using new rect by simp
    next
      case 3
      then show ?thesis
        using old [OF 3] inv by (simp add: tool_inv_def list_all_length n_def)
    qed
  qed
  have inv': "tool_inv s'"
    using i hist inv rects
    by (auto simp: tool_inv_def s'_def n_def [symmetric] i_def [symmetric] list_all_iff
        less_Suc_eq)
  have "image_buf s' = image_buf s" "history s' = history s @ [n]"
    "length (heap s') = Suc n"
    by (simp_all add: s'_def n_def)
  with img' inv' new old live' show ?thesis
    unfolding s'_def [symmetric] n_def [symmetric] i_def [symmetric] by auto
qed


lemma undo_step:
  assumes "history s \<noteq> []" "k AND 0xFF = ord (CHR ''u'')"
  shows "handle_key cv s k =
     Inr (s\<lparr>image_buf := last (history s), history := butlast (history s)\<rparr>,
          [PrintUndo], Active)"
  using assms by (simp add: handle_key_def Let_def ord_vals)

text \<open>
  C1. After a click with a non-degenerate box, undo makes the snapshot pushed by that
  click the live image: the live buffer is again, pixel for pixel, the buffer before the
  click, and the history and its contents are those before the click.
\<close>

theorem undo_restores_buffer:
  assumes "blur_keeps_shape cv" and "tool_inv s" and "\<not> degenerate (box_of s cx cy)"
    and "k AND 0xFF = ord (CHR ''u'')"
  shows "\<exists>s' s''. apply_blur cv s cx cy = Inr s'
     \<and> handle_key cv s' k = Inr (s'', [PrintUndo], Active)
     \<and> live s'' = live s \<and> history s'' = history s \<and> snapshots s'' = snapshots s"
proof -
  obtain x1 y1 x2 y2 where box: "box_of s cx cy = (x1, y1, x2, y2)"
    by (cases "box_of s cx cy") auto
  from apply_blur_state [OF assms(1,2) box assms(3)]
  obtain s' where s': "apply_blur cv s cx cy = Inr s'"
    "history s' = history s @ [length (heap s)]"
    "heap s' ! length (heap s) = live s"
    "\<forall>a < length (heap s). a \<noteq> image_buf s \<longrightarrow> heap s' ! a = heap s ! a"
    by blast
  define s'' where "s'' = s'\<lparr>image_buf := last (history s'), history := butlast (history s')\<rparr>"
  have hk: "handle_key cv s' k = Inr (s'', [PrintUndo], Active)"
    unfolding s''_def using s'(2) assms(4) by (intro undo_step) simp_all
  have l: "live s'' = live s"
    using s'(2,3) by (simp add: s''_def live_def)
  have h: "history s'' = history s"
    using s'(2) by (simp add: s''_def)
  have "heap s' ! a = heap s ! a" if "a \<in> set (history s)" for a
    using s'(4) tool_inv_history_lt [OF assms(2) that] tool_inv_history_neq [OF assms(2) that]
    by simp
  then have "snapshots s'' = snapshots s"
    using h by (simp add: snapshots_def s''_def)
  with s'(1) hk l h show ?thesis by blast
qed

lemma ex_nondegenerate: "\<not> degenerate (box_of ex_tool 0 (-8))"
  by (simp add: ex_box degenerate_def)

theorem undo_restores_buffer_witness:
  "blur_keeps_shape ex_cv \<and> tool_inv ex_tool \<and> \<not> degenerate (box_of ex_tool 0 (-8))
   \<and> (117 :: int) AND 0xFF = ord (CHR ''u'')
   \<and> live (fst (projr (handle_key ex_cv (projr (apply_blur ex_cv ex_tool 0 (-8))) 117)))
       = live ex_tool
   \<and> history (fst (projr (handle_key ex_cv (projr (apply_blur ex_cv ex_tool 0 (-8))) 117)))
       = history ex_tool"
proof -
  have k: "(117 :: int) AND 0xFF = ord (CHR ''u'')" by (simp add: ord_vals)
  from undo_restores_buffer [OF ex_keeps ex_inv ex_nondegenerate k]
  show ?thesis using ex_keeps ex_inv ex_nondegenerate k by auto
qed

text \<open>
  C4. After a click with a non-degenerate box the image has the shape it had, and every
  pixel outside the clamped bounding box has the value it had.
\<close>

theorem pixels_outside_box_unchanged:
  assumes "blur_keeps_shape cv" and "tool_inv s" and "\<not> degenerate (box_of s cx cy)"
  shows "\<exists>s'. apply_blur cv s cx cy = Inr s'
     \<and> length (live s') = length (live s)
     \<and> (\<forall>y < length (live s). length (live s' ! y) = length (live s ! y))
     \<and> (\<forall>y < length (live s). \<forall>x < length (live s ! y).
          \<not> in_box (box_of s cx cy) x y \<longrightarrow> live s' ! y ! x = live s ! y ! x)"
proof -
  obtain x1 y1 x2 y2 where box: "box_of s cx cy = (x1, y1, x2, y2)"
    by (cases "box_of s cx cy") auto
  from apply_blur_state [OF assms(1,2) box assms(3)]
  obtain s' where s': "apply_blur cv s cx cy = Inr s'"
    "length (live s') = length (live s)"
    "\<forall>y < length (live s). length (live s' ! y) = length (live s ! y)"
    "\<forall>y < length (live s). \<forall>x < length (live s ! y).
          live s' ! y ! x =
            (if in_box (x1, y1, x2, y2) x y
                \<and> mask_of cv s cx cy ! (y - nat y1) ! (x - nat x1) = 255
             then blurred_of cv s cx cy ! (y - nat y1) ! (x - nat x1)
             else live s ! y ! x)"
    by blast
  from s'(4) have "\<forall>y < length (live s). \<forall>x < length (live s ! y).
          \<not> in_box (box_of s cx cy) x y \<longrightarrow> live s' ! y ! x = live s ! y ! x"
    by (simp add: box)
  with s'(1,2,3) show ?thesis by blast
qed

lemma ex_outside: "\<not> in_box (box_of ex_tool 0 (-8)) 11 0"
  by (simp add: ex_box in_box_def)

lemma ex_live: "live ex_tool = ex_image"
  by (simp add: live_def ex_tool_def)

theorem pixels_outside_box_unchanged_witness:
  "blur_keeps_shape ex_cv \<and> tool_inv ex_tool \<and> \<not> degenerate (box_of ex_tool 0 (-8))
   \<and> (0 :: nat) < length (live ex_tool) \<and> (11 :: nat) < length (live ex_tool ! 0)
   \<and> \<not> in_box (box_of ex_tool 0 (-8)) 11 0
   \<and> live (projr (apply_blur ex_cv ex_tool 0 (-8))) ! 0 ! 11 = (12, 12, 12)"
proof -
  have y: "(0 :: nat) < length (live ex_tool)" and x: "(11 :: nat) < length (live ex_tool ! 0)"
    and v: "live ex_tool ! 0 ! 11 = (12, 12, 12)"
    by (simp_all add: ex_live ex_image_def)
  from pixels_outside_box_unchanged [OF ex_keeps ex_inv ex_nondegenerate]
  obtain s' where "apply_blur ex_cv ex_tool 0 (-8) = Inr s'"
    and "\<forall>y < length (live ex_tool). \<forall>x < length (live ex_tool ! y).
          \<not> in_box (box_of ex_tool 0 (-8)) x y \<longrightarrow> live s' ! y ! x = live ex_tool ! y ! x"
    by blast
  with y x v ex_outside have "live (projr (apply_blur ex_cv ex_tool 0 (-8))) ! 0 ! 11 = (12, 12, 12)"
    by auto
  with ex_keeps ex_inv ex_nondegenerate ex_outside y x show ?thesis by simp
qed


text \<open>
  C5. Inside the clamped box the click selects per pixel with a binary mask: the mask
  value at the pixel's local position is 0 or 255, it is 255 exactly where the filled
  circle of radius \<open>r\<close> centred at the local point \<open>(cx - x1, cy - y1)\<close> covers the
  position, the pixel becomes exactly the blurred value where the mask is 255 and keeps
  exactly its value where the mask is 0.
\<close>

theorem hard_mask_select:
  assumes "blur_keeps_shape cv" and "tool_inv s"
    and "box_of s cx cy = (x1, y1, x2, y2)" and "\<not> degenerate (box_of s cx cy)"
  shows "\<exists>s'. apply_blur cv s cx cy = Inr s'
     \<and> (\<forall>y < length (live s). \<forall>x < length (live s ! y).
          in_box (x1, y1, x2, y2) x y \<longrightarrow>
            (let m = mask_of cv s cx cy ! (y - nat y1) ! (x - nat x1)
             in (m = 0 \<or> m = 255)
                \<and> (m = 255 \<longleftrightarrow>
                     circle_covers cv (cx - x1, cy - y1) (radius s) (int x - x1, int y - y1))
                \<and> (m = 255 \<longrightarrow>
                     live s' ! y ! x = blurred_of cv s cx cy ! (y - nat y1) ! (x - nat x1))
                \<and> (m = 0 \<longrightarrow> live s' ! y ! x = live s ! y ! x)))"
proof -
  have rect: "rectangular (live s)" using assms(2) by (rule tool_inv_live_rectangular)
  from apply_blur_state [OF assms]
  obtain s' where s': "apply_blur cv s cx cy = Inr s'"
    "\<forall>y < length (live s). \<forall>x < length (live s ! y).
          live s' ! y ! x =
            (if in_box (x1, y1, x2, y2) x y
                \<and> mask_of cv s cx cy ! (y - nat y1) ! (x - nat x1) = 255
             then blurred_of cv s cx cy ! (y - nat y1) ! (x - nat x1)
             else live s ! y ! x)"
    by blast
  have "let m = mask_of cv s cx cy ! (y - nat y1) ! (x - nat x1)
        in (m = 0 \<or> m = 255)
           \<and> (m = 255 \<longleftrightarrow>
                circle_covers cv (cx - x1, cy - y1) (radius s) (int x - x1, int y - y1))
           \<and> (m = 255 \<longrightarrow>
                live s' ! y ! x = blurred_of cv s cx cy ! (y - nat y1) ! (x - nat x1))
           \<and> (m = 0 \<longrightarrow> live s' ! y ! x = live s ! y ! x)"
    if "y < length (live s)" "x < length (live s ! y)" "in_box (x1, y1, x2, y2) x y" for y x
    using s'(2) that mask_of_nth [OF rect assms(3,4) that(3), of cv]
    by (simp add: Let_def)
  with s'(1) show ?thesis by blast
qed

lemma ex_blurred: "blurred_of ex_cv ex_tool 0 (-8) =
    [[(0, 0, 0), (0, 0, 0), (0, 0, 0), (0, 0, 0), (0, 0, 0),
      (0, 0, 0), (0, 0, 0), (0, 0, 0), (0, 0, 0), (0, 0, 0)]]"
  by (simp add: blurred_of_def roi_of_def ex_box ex_live ex_image_def slice2_def py_slice_def
      slice_index_def ex_cv_def Let_def)

theorem hard_mask_select_witness:
  "blur_keeps_shape ex_cv \<and> tool_inv ex_tool \<and> box_of ex_tool 0 (-8) = (0, 0, 10, 1)
   \<and> \<not> degenerate (box_of ex_tool 0 (-8))
   \<and> (0 :: nat) < length (live ex_tool) \<and> (8 :: nat) < length (live ex_tool ! 0)
   \<and> in_box (0, 0, 10, 1) 8 0
   \<and> mask_of ex_cv ex_tool 0 (-8) ! 0 ! 8 = 0
   \<and> live (projr (apply_blur ex_cv ex_tool 0 (-8))) ! 0 ! 8 = (9, 9, 9)
   \<and> (3 :: nat) < length (live ex_tool ! 0)
   \<and> in_box (0, 0, 10, 1) 3 0
   \<and> mask_of ex_cv ex_tool 0 (-8) ! 0 ! 3 = 255
   \<and> live (projr (apply_blur ex_cv ex_tool 0 (-8))) ! 0 ! 3 = (0, 0, 0)"
proof -
  have y: "(0 :: nat) < length (live ex_tool)" and x8: "(8 :: nat) < length (live ex_tool ! 0)"
    and x3: "(3 :: nat) < length (live ex_tool ! 0)"
    and v8: "live ex_tool ! 0 ! 8 = (9, 9, 9)"
    by (simp_all add: ex_live ex_image_def)
  have b8: "in_box (0, 0, 10, 1) 8 0" and b3: "in_box (0, 0, 10, 1) 3 0"
    by (simp_all add: in_box_def)
  have c8: "\<not> circle_covers ex_cv (0 - 0, - 8 - 0) (radius ex_tool) (int 8 - 0, int 0 - 0)"
    and c3: "circle_covers ex_cv (0 - 0, - 8 - 0) (radius ex_tool) (int 3 - 0, int 0 - 0)"
    by (simp_all add: ex_cv_def ex_tool_def)
  from hard_mask_select [OF ex_keeps ex_inv ex_box ex_nondegenerate]
  obtain s' where s': "apply_blur ex_cv ex_tool 0 (-8) = Inr s'"
    and sel: "\<forall>y < length (live ex_tool). \<forall>x < length (live ex_tool ! y).
          in_box (0, 0, 10, 1) x y \<longrightarrow>
            (let m = mask_of ex_cv ex_tool 0 (-8) ! (y - nat 0) ! (x - nat 0)
             in (m = 0 \<or> m = 255)
                \<and> (m = 255 \<longleftrightarrow>
                     circle_covers ex_cv (0 - 0, - 8 - 0) (radius ex_tool) (int x - 0, int y - 0))
                \<and> (m = 255 \<longrightarrow>
                     live s' ! y ! x = blurred_of ex_cv ex_tool 0 (-8) ! (y - nat 0) ! (x - nat 0))
                \<and> (m = 0 \<longrightarrow> live s' ! y ! x = live ex_tool ! y ! x))"
    by blast
  from sel [rule_format, OF y x8 b8] c8 have m8: "mask_of ex_cv ex_tool 0 (-8) ! 0 ! 8 = 0"
    and p8: "live s' ! 0 ! 8 = live ex_tool ! 0 ! 8"
    by (auto simp: Let_def)
  from sel [rule_format, OF y x3 b3] c3 have m3: "mask_of ex_cv ex_tool 0 (-8) ! 0 ! 3 = 255"
    and p3: "live s' ! 0 ! 3 = blurred_of ex_cv ex_tool 0 (-8) ! 0 ! 3"
    by (auto simp: Let_def)
  from p3 have p3': "live s' ! 0 ! 3 = (0, 0, 0)" by (simp add: ex_blurred)
  from ex_keeps ex_inv ex_box ex_nondegenerate y x8 x3 b8 b3 m8 m3 p8 p3' v8 s'
  show ?thesis by simp
qed


lemma tool_inv_undo:
  assumes inv: "tool_inv s" and ne: "history s \<noteq> []"
  shows "tool_inv (s\<lparr>image_buf := last (history s), history := butlast (history s)\<rparr>)"
proof -
  have split: "history s = butlast (history s) @ [last (history s)]"
    using ne by simp
  have d: "distinct (butlast (history s) @ [last (history s)])"
    using inv split by (simp add: tool_inv_def)
  have lt: "\<forall>a \<in> set (butlast (history s) @ [last (history s)]). a < length (heap s)"
    using inv split by (simp add: tool_inv_def list_all_iff)
  show ?thesis
    using d lt inv by (simp add: tool_inv_def list_all_iff)
qed

lemma handle_key_keeps_stored:
  assumes inv: "tool_inv s" and hk: "handle_key cv s k = Inr (s', out, st)"
  shows "tool_inv s' \<and> heap s' = heap s \<and> set (history s') \<subseteq> set (history s)"
proof (cases "history s \<noteq> [] \<and> k AND 0xFF = ord (CHR ''u'')")
  case True
  then have "s' = s\<lparr>image_buf := last (history s), history := butlast (history s)\<rparr>"
    using hk by (simp add: undo_step)
  then show ?thesis
    using True tool_inv_undo [OF inv] by (auto dest: in_set_butlastD)
next
  case False
  have "tool_inv (s\<lparr>radius := r\<rparr>)" "tool_inv (s\<lparr>blur_strength := r\<rparr>)" for r
    using inv by (simp_all add: tool_inv_def)
  with False inv hk show ?thesis
    by (auto simp: handle_key_def Let_def split: if_splits sum.splits)
qed

lemma mouse_callback_keeps_stored:
  assumes keeps: "blur_keeps_shape cv" and inv: "tool_inv s"
  shows "\<exists>s1. mouse_callback cv s e x y = Inr s1 \<and> tool_inv s1
    \<and> length (heap s) \<le> length (heap s1)
    \<and> (\<forall>a \<in> set (history s1). a < length (heap s) \<longrightarrow>
          a \<in> set (history s) \<and> heap s1 ! a = heap s ! a)"
proof (cases "e = EVENT_LBUTTONDOWN \<and> \<not> degenerate (box_of s x y)")
  case True
  obtain x1 y1 x2 y2 where box: "box_of s x y = (x1, y1, x2, y2)"
    by (cases "box_of s x y") auto
  from True have nd: "\<not> degenerate (box_of s x y)" by simp
  from apply_blur_state [OF keeps inv box nd]
  obtain s' where s': "apply_blur cv s x y = Inr s'" "tool_inv s'"
    "history s' = history s @ [length (heap s)]"
    "length (heap s') = Suc (length (heap s))"
    "\<forall>a < length (heap s). a \<noteq> image_buf s \<longrightarrow> heap s' ! a = heap s ! a"
    by blast
  have "mouse_callback cv s e x y = Inr s'"
    using True s'(1) by (simp add: mouse_callback_def EVENT_LBUTTONDOWN_def EVENT_MOUSEMOVE_def)
  moreover have "a \<in> set (history s) \<and> heap s' ! a = heap s ! a"
    if "a \<in> set (history s')" "a < length (heap s)" for a
  proof -
    from that s'(3) have m: "a \<in> set (history s)" by auto
    with s'(5) that(2) tool_inv_history_neq [OF inv m] show ?thesis by simp
  qed
  ultimately show ?thesis using s'(2,4) by auto
next
  case False
  have "tool_inv (s\<lparr>mouse_pos := p\<rparr>)" for p
    using inv by (simp add: tool_inv_def)
  with False inv show ?thesis
    by (auto simp: mouse_callback_def apply_blur_noop)
qed

lemma run_keeps_stored:
  assumes keeps: "blur_keeps_shape cv"
  shows "tool_inv s \<Longrightarrow> run cv s es = Inr (s', out, st) \<Longrightarrow>
     tool_inv s' \<and> length (heap s) \<le> length (heap s')
     \<and> (\<forall>a \<in> set (history s'). a < length (heap s) \<longrightarrow>
          a \<in> set (history s) \<and> heap s' ! a = heap s ! a)"
proof (induction es arbitrary: s out)
  case Nil
  then show ?case by simp
next
  case (Cons e es)
  show ?case
  proof (cases e)
    case (Mouse ev x y)
    from mouse_callback_keeps_stored [OF keeps Cons.prems(1), of ev x y]
    obtain s1 where s1: "mouse_callback cv s ev x y = Inr s1" "tool_inv s1"
      "length (heap s) \<le> length (heap s1)"
      "\<forall>a \<in> set (history s1). a < length (heap s) \<longrightarrow>
          a \<in> set (history s) \<and> heap s1 ! a = heap s ! a"
      by blast
    from Cons.prems(2) Mouse s1(1) have "run cv s1 es = Inr (s', out, st)" by simp
    from Cons.IH [OF s1(2) this] s1(3,4) show ?thesis
      by (auto simp: le_trans less_le_trans)
  next
    case (WaitKey k)
    from Cons.prems(2) WaitKey obtain s1 o1 st1
      where hk: "handle_key cv s k = Inr (s1, o1, st1)"
      by (cases "handle_key cv s k") auto
    from handle_key_keeps_stored [OF Cons.prems(1) hk]
    have s1: "tool_inv s1" "heap s1 = heap s" "set (history s1) \<subseteq> set (history s)"
      by simp_all
    show ?thesis
    proof (cases st1)
      case Active
      with Cons.prems(2) WaitKey hk obtain o2 where "run cv s1 es = Inr (s', o2, st)"
        by (auto split: sum.splits)
      from Cons.IH [OF s1(1) this] s1(2,3) show ?thesis by auto
    next
      case Terminated
      with Cons.prems(2) WaitKey hk have "s' = s1" by simp
      with s1 show ?thesis by auto
    qed
  qed
qed

text \<open>
  C6. A click with a non-degenerate box pushes exactly one entry onto the history; the
  entry is a fresh array holding the entire live buffer as it was before the click, and
  the entries already stored are unaltered. The live image shares storage with no entry,
  and whatever events follow, an entry that is still in the history holds what it held.
\<close>

theorem snapshot_pushed_and_kept:
  assumes "blur_keeps_shape cv" and "tool_inv s" and "\<not> degenerate (box_of s cx cy)"
  shows "\<exists>s'. apply_blur cv s cx cy = Inr s'
     \<and> history s' = history s @ [length (heap s)]
     \<and> snapshots s' = snapshots s @ [live s]
     \<and> image_buf s' \<notin> set (history s')
     \<and> (\<forall>es s'' out st. run cv s' es = Inr (s'', out, st) \<longrightarrow>
          (\<forall>a \<in> set (history s''). a \<in> set (history s') \<longrightarrow> heap s'' ! a = heap s' ! a))"
proof -
  obtain x1 y1 x2 y2 where box: "box_of s cx cy = (x1, y1, x2, y2)"
    by (cases "box_of s cx cy") auto
  from apply_blur_state [OF assms(1,2) box assms(3)]
  obtain s' where s': "apply_blur cv s cx cy = Inr s'" "tool_inv s'"
    "history s' = history s @ [length (heap s)]"
    "heap s' ! length (heap s) = live s"
    "\<forall>a < length (heap s). a \<noteq> image_buf s \<longrightarrow> heap s' ! a = heap s ! a"
    by blast
  have "heap s' ! a = heap s ! a" if "a \<in> set (history s)" for a
    using s'(5) tool_inv_history_lt [OF assms(2) that] tool_inv_history_neq [OF assms(2) that]
    by simp
  then have snap: "snapshots s' = snapshots s @ [live s]"
    using s'(3,4) by (simp add: snapshots_def)
  have sep: "image_buf s' \<notin> set (history s')"
    using s'(2) by (simp add: tool_inv_def)
  have later: "heap s'' ! a = heap s' ! a"
    if "run cv s' es = Inr (s'', out, st)" "a \<in> set (history s'')" "a \<in> set (history s')"
    for es s'' out st a
    using run_keeps_stored [OF assms(1) s'(2) that(1)] that(2)
      tool_inv_history_lt [OF s'(2) that(3)]
    by simp
  from s'(1,3) snap sep later show ?thesis by blast
qed


lemma ex_run_again:
  "run ex_cv ex_tool_clicked [Mouse 1 3 0] = Inr (ex_tool_clicked_twice, [], Active)"
  by (simp add: mouse_callback_def EVENT_LBUTTONDOWN_def EVENT_MOUSEMOVE_def ex_apply_again)

theorem snapshot_pushed_and_kept_witness:
  "blur_keeps_shape ex_cv \<and> tool_inv ex_tool \<and> \<not> degenerate (box_of ex_tool 0 (-8))
   \<and> apply_blur ex_cv ex_tool 0 (-8) = Inr ex_tool_clicked
   \<and> history ex_tool_clicked = history ex_tool @ [length (heap ex_tool)]
   \<and> snapshots ex_tool_clicked = snapshots ex_tool @ [live ex_tool]
   \<and> run ex_cv ex_tool_clicked [Mouse 1 3 0] = Inr (ex_tool_clicked_twice, [], Active)
   \<and> 2 \<in> set (history ex_tool_clicked_twice) \<and> 2 \<in> set (history ex_tool_clicked)
   \<and> heap ex_tool_clicked_twice ! 2 = heap ex_tool_clicked ! 2"
proof -
  have m: "2 \<in> set (history ex_tool_clicked_twice)" "2 \<in> set (history ex_tool_clicked)"
    by (simp_all add: ex_tool_clicked_twice_def ex_tool_clicked_def)
  from snapshot_pushed_and_kept [OF ex_keeps ex_inv ex_nondegenerate]
  have "history ex_tool_clicked = history ex_tool @ [length (heap ex_tool)]"
    and "snapshots ex_tool_clicked = snapshots ex_tool @ [live ex_tool]"
    and "\<forall>es s'' out st. run ex_cv ex_tool_clicked es = Inr (s'', out, st) \<longrightarrow>
          (\<forall>a \<in> set (history s''). a \<in> set (history ex_tool_clicked) \<longrightarrow>
             heap s'' ! a = heap ex_tool_clicked ! a)"
    by (auto simp: ex_apply)
  with ex_run_again m ex_keeps ex_inv ex_nondegenerate ex_apply show ?thesis
    by blast
qed















section \<open>Facts about the output path\<close>

lemma rfind_range: "- 1 \<le> rfind p c \<and> rfind p c < int (length p)"
  by (induction p) (auto simp: Let_def)

lemma rfind_nth: "0 \<le> rfind p c \<Longrightarrow> p ! nat (rfind p c) = c"
proof (induction p)
  case Nil
  then show ?case by simp
next
  case (Cons x xs)
  show ?case
  proof (cases "0 \<le> rfind xs c")
    case True
    then have "nat (rfind xs c + 1) = Suc (nat (rfind xs c))" by simp
    with True Cons.IH show ?thesis by (simp add: Let_def)
  next
    case False
    with Cons.prems show ?thesis by (simp add: Let_def split: if_splits)
  qed
qed

lemma rfind_is_last: "i < length p \<Longrightarrow> p ! i = c \<Longrightarrow> int i \<le> rfind p c"
proof (induction p arbitrary: i)
  case Nil
  then show ?case by simp
next
  case (Cons x xs)
  show ?case
  proof (cases i)
    case 0
    with Cons.prems rfind_range [of xs c] show ?thesis by (simp add: Let_def)
  next
    case (Suc j)
    with Cons.prems have "int j \<le> rfind xs c" by (intro Cons.IH) simp_all
    with Suc show ?thesis by (simp add: Let_def)
  qed
qed

lemma not_in_drop_after:
  assumes "rfind p c < int d"
  shows "c \<notin> set (drop d p)"
proof
  assume "c \<in> set (drop d p)"
  then obtain j where j: "j < length (drop d p)" "drop d p ! j = c"
    by (auto simp: in_set_conv_nth)
  then have "d + j < length p" "p ! (d + j) = c" by simp_all
  from rfind_is_last [OF this] assms show False by simp
qed

lemma rfind_absent: "c \<notin> set p \<Longrightarrow> rfind p c = - 1"
  by (induction p) (auto simp: Let_def)

lemma rfind_append_absent: "c \<notin> set ys \<Longrightarrow> rfind (xs @ ys) c = rfind xs c"
  by (induction xs) (auto simp: Let_def rfind_absent)

lemma rfind_at_last: "c \<notin> set ys \<Longrightarrow> rfind (xs @ c # ys) c = int (length xs)"
  by (induction xs) (auto simp: Let_def rfind_absent)

text \<open>The index of the last separator, as \<open>_splitext\<close> computes it.\<close>

lemma sep_index_lower:
  "- 1 \<le> (case altsep of None \<Rightarrow> rfind p sep | Some a \<Rightarrow> max (rfind p sep) (rfind p a))"
  using rfind_range [of p sep] by (cases altsep) (auto simp: le_max_iff_disj)

lemma sep_index_after:
  assumes "(case altsep of None \<Rightarrow> rfind p sep | Some a \<Rightarrow> max (rfind p sep) (rfind p a))
             < int d"
  shows "sep \<notin> set (drop d p) \<and> altsep \<notin> set (map Some (drop d p))"
proof -
  from assms have "rfind p sep < int d"
    by (cases altsep) simp_all
  then have a: "sep \<notin> set (drop d p)" by (rule not_in_drop_after)
  have b: "altsep \<notin> set (map Some (drop d p))"
  proof (cases altsep)
    case None
    then show ?thesis by simp
  next
    case (Some c)
    with assms have "rfind p c < int d" by simp
    then have "c \<notin> set (drop d p)" by (rule not_in_drop_after)
    with Some show ?thesis by auto
  qed
  from a b show ?thesis ..
qed

lemma splitext_generic_parts:
  assumes "splitext_generic p sep altsep extsep = (base, ext)"
  shows "base @ ext = p
    \<and> (ext = [] \<or> (hd ext = extsep \<and> extsep \<notin> set (tl ext) \<and> sep \<notin> set ext
                     \<and> altsep \<notin> set (map Some ext)))"
proof (cases "ext = []")
  case True
  with assms show ?thesis
    by (auto simp: splitext_generic_def Let_def split: if_splits)
next
  case False
  define i where
    "i = (case altsep of None \<Rightarrow> rfind p sep | Some a \<Rightarrow> max (rfind p sep) (rfind p a))"
  define d where "d = rfind p extsep"
  from False assms have c: "i < d" and b: "base = take (nat d) p"
    and e: "ext = drop (nat d) p"
    by (auto simp: splitext_generic_def Let_def d_def i_def split: if_splits)
  have d0: "0 \<le> d" using c sep_index_lower [where altsep = altsep and p = p and sep = sep] by (simp add: i_def)
  have dl: "nat d < length p" using rfind_range [of p extsep] d0 by (simp add: d_def)
  have hd: "hd ext = extsep"
    using rfind_nth [of p extsep] d0 dl by (simp add: e hd_drop_conv_nth d_def)
  have "tl ext = drop (Suc (nat d)) p" by (simp add: e drop_Suc tl_drop)
  moreover have "rfind p extsep < int (Suc (nat d))" using d0 by (simp add: d_def)
  ultimately have tl: "extsep \<notin> set (tl ext)"
    using not_in_drop_after [of p extsep "Suc (nat d)"] by simp
  have "i < int (nat d)" using c d0 by simp
  then have "sep \<notin> set ext \<and> altsep \<notin> set (map Some ext)"
    unfolding e i_def by (rule sep_index_after)
  with hd tl b e show ?thesis by simp
qed

lemma splitext_generic_extension:
  assumes p: "p = dir @ name @ extsep # e"
    and name: "sep \<notin> set name" "altsep \<notin> set (map Some name)" "\<not> set name \<subseteq> {extsep}"
    and e: "extsep \<notin> set e" "sep \<notin> set e" "altsep \<notin> set (map Some e)"
    and neq: "sep \<noteq> extsep" "altsep \<noteq> Some extsep"
  shows "splitext_generic p sep altsep extsep = (dir @ name, extsep # e)"
proof -
  define i where
    "i = (case altsep of None \<Rightarrow> rfind p sep | Some a \<Rightarrow> max (rfind p sep) (rfind p a))"
  define n where "n = length (dir @ name)"
  have dot: "rfind p extsep = int n"
    using rfind_at_last [OF e(1), of "dir @ name"] by (simp add: p n_def)
  have s1: "rfind p sep = rfind dir sep"
    using name(1) e(2) neq(1) rfind_append_absent [of sep "name @ extsep # e" dir]
    by (simp add: p)
  have s2: "rfind p a = rfind dir a" if "altsep = Some a" for a
    using that name(2) e(3) neq(2) rfind_append_absent [of a "name @ extsep # e" dir]
    by (auto simp: p)
  have i: "i < int (length dir)"
  proof (cases altsep)
    case None
    then show ?thesis using rfind_range [of dir sep] s1 by (simp add: i_def)
  next
    case (Some a)
    then show ?thesis
      using rfind_range [of dir sep] rfind_range [of dir a] s1 s2 [OF Some]
      by (simp add: i_def)
  qed
  have i0: "- 1 \<le> i"
    unfolding i_def by (rule sep_index_lower)
  from name(3) obtain c where "c \<in> set name" "c \<noteq> extsep" by blast
  then obtain j where j: "j < length name" "name ! j \<noteq> extsep"
    by (metis in_set_conv_nth)
  have "nat (i + 1) \<le> length dir + j" "length dir + j < n"
    using i i0 j(1) by (simp_all add: n_def)
  then have "length dir + j \<in> set [nat (i + 1) ..< nat (int n)]"
    by simp
  moreover have "p ! (length dir + j) \<noteq> extsep"
    using j by (simp add: p nth_append)
  ultimately have ex: "list_ex (\<lambda>k. p ! k \<noteq> extsep) [nat (i + 1) ..< nat (int n)]"
    unfolding list_ex_iff by blast
  have lt: "i < int n" using i by (simp add: n_def)
  have "take (nat (int n)) p = dir @ name" "drop (nat (int n)) p = extsep # e"
    by (simp_all add: p n_def)
  with ex lt show ?thesis
    unfolding splitext_generic_def Let_def i_def [symmetric] dot by (simp only: if_True simp_thms)
qed

end
